theory Spec2Isabelle
  imports Complex_Main "HOL-Library.Word" "HOL-Library.Signed_Division"
begin

section \<open>Constants and types of bench-disk-bonnie.c\<close>

text \<open>
  The macros of lines 114--128. C's \<open>int\<close>, \<open>long\<close> and \<open>long long\<close> values are
  integers; the one product that could leave the range of a 64-bit \<open>long\<close> is wrapped
  explicitly (\<open>wrap_long\<close>). C's \<open>/\<close> and \<open>%\<close> truncate towards zero: they are
  \<open>sdiv\<close> and \<open>smod\<close>. A \<open>double\<close> is modelled by its real value, with exact
  \<open>+\<close> and \<open>-\<close> (rounding is not modelled).
\<close>

definition IntSize :: int where "IntSize = 4"
definition CPU :: nat where "CPU = 0"
definition Elapsed :: nat where "Elapsed = 1"
definition StartTime :: nat where "StartTime = 1"
definition EndTime :: nat where "EndTime = 2"
definition Seeks :: nat where "Seeks = 100000"
definition UpdateSeek :: int where "UpdateSeek = 10"
definition SeekProcCount :: nat where "SeekProcCount = 3"
definition Chunk :: int where "Chunk = 8192"

datatype tests_t = Putc | ReWrite | FastWrite | Getc | FastRead | Lseek | Lseek2

text \<open>A signed 64-bit \<open>long\<close> (LP64): the value of an arithmetic result after wrap-around.\<close>

definition wrap_long :: "int \<Rightarrow> int" where
  "wrap_long x = signed_take_bit 63 x"

text \<open>The values \<open>random(3)\<close> returns: 0 to \<open>2^31 - 1\<close>.\<close>

definition is_random :: "int \<Rightarrow> bool" where
  "is_random r = (0 \<le> r \<and> r < 2147483648)"

section \<open>Process termination\<close>

text \<open>
  \<open>io_error\<close> (lines 644--653) prints \<open>bonnie: drastic I/O error (message)\<close> with
  \<open>perror\<close> and calls \<open>exit(1)\<close>. A process also ends by \<open>exit(0)\<close>, by \<open>usage\<close>
  (\<open>exit(1)\<close>) or by the signal of an integer division by zero. \<open>Running\<close> is a
  process that has not ended when the steps watched are over (the loop of lines 410--419
  need not end).
\<close>

datatype halt = Exit (status: int) (diag: string) | Sigfpe | Running

definition io_error :: "string \<Rightarrow> halt" where
  "io_error message = Exit 1 (''bonnie: drastic I/O error ('' @ message @ '')'')"

section \<open>What a process does: its calls, in order\<close>

text \<open>
  A call on the benchmark file carries the message the source gives to \<open>io_error\<close> or
  \<open>perror\<close> at that place, which names the call; a write also carries the file offset
  it writes at. The calls whose result the source never looks at and that do not touch
  the benchmark file (\<open>close\<close> of a pipe end, \<open>sleep\<close>, \<open>srandom\<close>, \<open>getrusage\<close>,
  \<open>fprintf\<close>) are not listed.
\<close>

datatype event =
    Call_doseek int int int          \<comment> \<open>\<open>doseek(where, fd, update, do_touch)\<close> entered\<close>
  | Sys_lseek string int int         \<comment> \<open>place, offset asked for, value returned\<close>
  | Sys_read string int int          \<comment> \<open>place, count asked for, value returned\<close>
  | Sys_write string int "32 word list" int int
                                     \<comment> \<open>place, file offset, the buffer, the count, value returned\<close>
  | Sys_fsync string int             \<comment> \<open>place, value returned\<close>
  | Sys_close string int             \<comment> \<open>place, value returned\<close>
  | Sys_unlink int                   \<comment> \<open>value returned\<close>
  | Sys_open int                     \<comment> \<open>value returned\<close>
  | Sys_fdopen bool                  \<comment> \<open>whether the stream returned is not \<open>NULL\<close>\<close>
  | Sys_gettimeofday bool            \<comment> \<open>whether the value returned is not \<open>-1\<close>\<close>
  | Sys_system string
  | Sys_pipe int                     \<comment> \<open>value returned\<close>
  | Sys_fork int                     \<comment> \<open>value returned\<close>
  | Sys_read_ticket "8 word option"  \<comment> \<open>one-byte read on the control pipe: the byte, or a
                                         return value other than 1\<close>
  | Sys_write_tickets "8 word list" int  \<comment> \<open>the bytes given, value returned\<close>
  | Sys_read_report int              \<comment> \<open>value returned\<close>
  | Sys_write_report "real list" int \<comment> \<open>the three doubles given, value returned\<close>
  | Sys_wait int                     \<comment> \<open>value returned\<close>
  | Perror string                    \<comment> \<open>a diagnostic printed without leaving\<close>
  | Call_report                      \<comment> \<open>\<open>report()\<close>, which prints the table of results\<close>

section \<open>The probe: \<open>doseek\<close> (lines 670--696)\<close>

text \<open>
  The offset handed to \<open>doseek\<close> (line 250):
  \<open>(long long) ((random() * 0xFFFFFFFF) % file_size)\<close>. \<open>random()\<close> is a \<open>long\<close>,
  \<open>0xFFFFFFFF\<close> an \<open>unsigned int\<close>, so the product is a \<open>long\<close>. With
  \<open>file_size = 0\<close> (which \<open>main\<close> reaches when the scaling of the size wraps around,
  as with \<open>-s 17179869184\<close>) the \<open>%\<close> is a division by zero: the process is killed
  by \<open>SIGFPE\<close>.
\<close>

definition seek_offset :: "int \<Rightarrow> int \<Rightarrow> halt + int" where
  "seek_offset r file_size =
    (if file_size = 0 then Inl Sigfpe else Inr (wrap_long (r * 4294967295) smod file_size))"

text \<open>Line 677: \<open>probe = (where / Chunk) * Chunk\<close>.\<close>

definition probe_of :: "int \<Rightarrow> int" where
  "probe_of wher = (wher sdiv Chunk) * Chunk"

text \<open>Line 688: the index \<open>((long long) random() % (size/IntSize - 2)) + 1\<close>.\<close>

definition touch_index :: "int \<Rightarrow> int \<Rightarrow> int" where
  "touch_index r sz = (r smod (sz sdiv IntSize - 2)) + 1"

text \<open>\<open>buf[i]--\<close> on the \<open>int buf[Chunk / IntSize]\<close> of \<open>doseek\<close>.\<close>

definition touch_word :: "32 word list \<Rightarrow> int \<Rightarrow> 32 word list" where
  "touch_word buf i = buf[nat i := buf ! nat i - 1]"

text \<open>
  What the system answers during one call of \<open>doseek\<close>: the values the calls return,
  the contents of \<open>buf\<close> after the read (its \<open>Chunk / IntSize = 2048\<close> words), and the
  two values of \<open>random()\<close> (the one the caller draws for the offset, the one of the
  update branch).
\<close>

record probe_env =
  r_offset :: int
  lseek_res :: int
  read_res :: int
  read_buf :: "32 word list"
  r_word :: int
  lseek2_res :: int
  write_res :: int
  fsync_res :: int

definition doseek :: "probe_env \<Rightarrow> int \<Rightarrow> int \<Rightarrow> int \<Rightarrow> (halt + unit) \<times> event list" where
  "doseek e wher update do_touch =
    (let probe = probe_of wher;
         ev1 = [Call_doseek wher update do_touch,
                Sys_lseek ''lseek in doseek'' probe (lseek_res e)]
     in if lseek_res e \<noteq> probe then (Inl (io_error ''lseek in doseek''), ev1)
     else let sz = read_res e;
              ev2 = ev1 @ [Sys_read ''read in doseek'' Chunk sz]
     in if sz = - 1 then (Inl (io_error ''read in doseek''), ev2)
     else if update \<noteq> 0 \<and> do_touch \<noteq> 0 then
       (if sz sdiv IntSize - 2 = 0 then (Inl Sigfpe, ev2)
        else let buf = touch_word (read_buf e) (touch_index (r_word e) sz);
                 ev3 = ev2 @ [Sys_lseek ''lseek in doseek update'' probe (lseek2_res e)]
        in if lseek2_res e \<noteq> probe then (Inl (io_error ''lseek in doseek update''), ev3)
        else let ev4 = ev3 @ [Sys_write ''write in doseek'' probe buf sz (write_res e)]
        in if write_res e = - 1 then (Inl (io_error ''write in doseek''), ev4)
        else let ev5 = ev4 @ [Sys_fsync ''fsync(2) in seek w/write(2)'' (fsync_res e)]
        in if fsync_res e = - 1 then (Inl (io_error ''fsync(2) in seek w/write(2)''), ev5)
        else (Inr (), ev5))
     else (Inr (), ev2))"

section \<open>The worker's loop (lines 242--254)\<close>

text \<open>
  Line 251: the third argument of \<open>doseek\<close>, \<open>(lseek_count++ % UpdateSeek) == 0\<close>.
\<close>

definition update_flag :: "nat \<Rightarrow> int" where
  "update_flag lseek_count = (if int lseek_count smod UpdateSeek = 0 then 1 else 0)"

text \<open>
  Lines 250--251, the statement \<open>doseek(...)\<close> of the loop with \<open>lseek_count = k\<close>: the
  offset is computed, then \<open>doseek\<close> is called.
\<close>

definition seek_step :: "probe_env \<Rightarrow> int \<Rightarrow> int \<Rightarrow> nat \<Rightarrow> (halt + unit) \<times> event list" where
  "seek_step e file_size do_write k =
    (case seek_offset (r_offset e) file_size of
       Inl h \<Rightarrow> (Inl h, [])
     | Inr wher \<Rightarrow> doseek e wher (update_flag k) do_write)"

text \<open>
  \<open>seek_loop pe file_size do_write t ts lseek_count tr\<close> is the loop
  \<open>while (seek_tickets[0]) { doseek(...); read ticket }\<close> with \<open>seek_tickets[0] = t\<close>;
  \<open>ts\<close> are the bytes the worker's further reads on the control pipe deliver, and a read
  after them returns something other than 1. \<open>pe k\<close> is what the system answers during
  the probe with \<open>lseek_count = k\<close>. \<open>lseek_count\<close> starts at 0 and is only incremented,
  once for each ticket: it is a natural number. The result is the final \<open>lseek_count\<close>,
  or how the process ended, and the calls made.
\<close>

fun seek_loop ::
  "(nat \<Rightarrow> probe_env) \<Rightarrow> int \<Rightarrow> int \<Rightarrow> 8 word \<Rightarrow> 8 word list \<Rightarrow> nat \<Rightarrow> event list
    \<Rightarrow> (halt + nat) \<times> event list" where
  "seek_loop pe file_size do_write t ts lseek_count tr =
    (if t = 0 then (Inr lseek_count, tr)
     else
       (case seek_step (pe lseek_count) file_size do_write lseek_count of
          (Inl h, evs) \<Rightarrow> (Inl h, tr @ evs)
        | (Inr u, evs) \<Rightarrow>
            (case ts of
               [] \<Rightarrow> (Inl (io_error ''read ticket''), tr @ evs @ [Sys_read_ticket None])
             | t' # ts' \<Rightarrow>
                 seek_loop pe file_size do_write t' ts' (lseek_count + 1)
                   (tr @ evs @ [Sys_read_ticket (Some t')]))))"

text \<open>The calls of \<open>doseek\<close> in a trace (the probes), and the bytes read from the
  control pipe.\<close>

fun doseek_calls :: "event list \<Rightarrow> (int \<times> int \<times> int) list" where
  "doseek_calls [] = []"
| "doseek_calls (Call_doseek w u d # es) = (w, u, d) # doseek_calls es"
| "doseek_calls (e # es) = doseek_calls es"

fun ticket_reads :: "event list \<Rightarrow> 8 word option list" where
  "ticket_reads [] = []"
| "ticket_reads (Sys_read_ticket b # es) = b # ticket_reads es"
| "ticket_reads (e # es) = ticket_reads es"

fun is_call :: "event \<Rightarrow> bool" where
  "is_call (Call_doseek w u d) = True"
| "is_call e = False"

fun is_write :: "event \<Rightarrow> bool" where
  "is_write (Sys_write s p b n r) = True"
| "is_write e = False"

text \<open>
  The probes of a trace in order, each with whether a \<open>write\<close> on the benchmark file is
  issued during it: a probe is the stretch of the trace from an entry of \<open>doseek\<close> up to
  the next one.
\<close>

fun probe_writes :: "event list \<Rightarrow> bool list" where
  "probe_writes [] = []"
| "probe_writes (e # es) =
     (if is_call e then list_ex is_write (takeWhile (\<lambda>x. \<not> is_call x) es) # probe_writes es
      else probe_writes es)"

text \<open>
  The claim of a uniform distribution, in the spec's words: \<open>random()\<close> takes each of
  its values equally often, so the offset is uniform over \<open>[0, file_size)\<close> when every
  offset there is the image of the same number of values of \<open>random()\<close>.
\<close>

definition offset_count :: "int \<Rightarrow> int \<Rightarrow> nat" where
  "offset_count file_size x = card {r. is_random r \<and> seek_offset r file_size = Inr x}"

definition offset_uniform :: "int \<Rightarrow> bool" where
  "offset_uniform file_size =
    (\<forall>x y. 0 \<le> x \<and> x < file_size \<and> 0 \<le> y \<and> y < file_size
       \<longrightarrow> offset_count file_size x = offset_count file_size y)"

text \<open>The duty cycle of the claim: every tenth probe, when the phase writes.\<close>

definition gate :: "int \<Rightarrow> nat \<Rightarrow> bool" where
  "gate do_write k = (k mod 10 = 0 \<and> do_write \<noteq> 0)"

text \<open>A probe in which every call succeeds: offset 0, a full block read.\<close>

definition quiet_probe :: probe_env where
  "quiet_probe = \<lparr> r_offset = 0, lseek_res = 0, read_res = 8192,
      read_buf = replicate 2048 7, r_word = 0,
      lseek2_res = 0, write_res = 8192, fsync_res = 0 \<rparr>"

section \<open>The tickets (lines 188, 219--222, 280)\<close>

text \<open>
  \<open>char seek_tickets[Seeks + SeekProcCount]\<close> is an array on the stack, not initialised:
  a store from index to byte, with any contents \<open>a\<close> at first. \<open>fill_tickets\<close> is the
  loop \<open>for ( ; next < bound; next++) seek_tickets[next] = v\<close>, which returns \<open>next\<close>
  and the array.
\<close>

function fill_tickets :: "nat \<Rightarrow> nat \<Rightarrow> 8 word \<Rightarrow> (nat \<Rightarrow> 8 word) \<Rightarrow> nat \<times> (nat \<Rightarrow> 8 word)" where
  "fill_tickets nxt bound v a =
    (if nxt < bound then fill_tickets (nxt + 1) bound v (a(nxt := v)) else (nxt, a))"
  by pat_completeness auto
termination
  by (relation "measure (\<lambda>(nxt, bound, v, a). bound - nxt)") auto

declare fill_tickets.simps [simp del]

text \<open>Lines 219--222: the first loop starts at 0, the second where the first stopped.\<close>

definition seek_tickets :: "(nat \<Rightarrow> 8 word) \<Rightarrow> (nat \<Rightarrow> 8 word)" where
  "seek_tickets a =
    (case fill_tickets 0 Seeks 1 a of
       (nxt, a1) \<Rightarrow> snd (fill_tickets nxt (Seeks + SeekProcCount) 0 a1))"

definition sizeof_seek_tickets :: nat where
  "sizeof_seek_tickets = Seeks + SeekProcCount"

text \<open>The bytes \<open>write(seek_control[1], seek_tickets, sizeof(seek_tickets))\<close> is given.\<close>

definition ticket_bytes :: "(nat \<Rightarrow> 8 word) \<Rightarrow> 8 word list" where
  "ticket_bytes a = map (seek_tickets a) [0 ..< sizeof_seek_tickets]"

text \<open>The tickets of a worker that let it perform a probe, and those that stop it.\<close>

definition perform_tickets :: "8 word list \<Rightarrow> nat" where
  "perform_tickets ts = length (filter (\<lambda>b. b \<noteq> 0) ts)"

definition stop_tickets :: "8 word list \<Rightarrow> nat" where
  "stop_tickets ts = length (filter (\<lambda>b. b = 0) ts)"

section \<open>Sequencing calls that may end the process\<close>

text \<open>
  A step returns a value or ends the process, and lists its calls. \<open>andthen\<close> runs a
  second step after a first one that returned. \<open>check\<close> is the source's
  \<open>if (call fails) io_error(message)\<close>, \<open>warn\<close> its \<open>if (call fails) perror(message)\<close>.
\<close>

fun andthen ::
  "(halt + 'a) \<times> event list \<Rightarrow> ('a \<Rightarrow> (halt + 'b) \<times> event list) \<Rightarrow> (halt + 'b) \<times> event list" where
  "andthen (Inl h, tr) f = (Inl h, tr)"
| "andthen (Inr x, tr) f = (case f x of (r, tr') \<Rightarrow> (r, tr @ tr'))"

definition check :: "event \<Rightarrow> bool \<Rightarrow> string \<Rightarrow> (halt + unit) \<times> event list" where
  "check ev failed message = (if failed then Inl (io_error message) else Inr (), [ev])"

definition warn :: "event \<Rightarrow> bool \<Rightarrow> string \<Rightarrow> (halt + unit) \<times> event list" where
  "warn ev failed message = (Inr (), if failed then [ev, Perror message] else [ev])"

text \<open>\<open>time_so_far\<close> (lines 622--642): \<open>gettimeofday\<close> gives the time, or fails.\<close>

definition time_so_far :: "real option \<Rightarrow> (halt + real) \<times> event list" where
  "time_so_far c =
    (case c of
       None \<Rightarrow> (Inl (io_error ''gettimeofday''), [Sys_gettimeofday False])
     | Some t \<Rightarrow> (Inr t, [Sys_gettimeofday True]))"

text \<open>
  \<open>newfile\<close> (lines 551--572). \<open>fd\<close> is the value of \<open>*fd\<close> at the call; the last three
  arguments are what \<open>unlink\<close>, \<open>open\<close> and \<open>fdopen\<close> return.
\<close>

definition newfile ::
  "string \<Rightarrow> int \<Rightarrow> bool \<Rightarrow> int \<Rightarrow> int \<Rightarrow> bool \<Rightarrow> (halt + int) \<times> event list" where
  "newfile name fd create unlink_res open_res fdopen_ok =
    andthen (if create
             then check (Sys_unlink unlink_res) (unlink_res = - 1 \<and> fd \<noteq> - 1) ''unlink''
             else (Inr (), []))
     (\<lambda>_. andthen (check (Sys_open open_res) (open_res = - 1) name)
     (\<lambda>_. andthen (check (Sys_fdopen fdopen_ok) (\<not> fdopen_ok) ''fdopen'')
     (\<lambda>_. (Inr open_res, []))))"

section \<open>The worker process (lines 230--268)\<close>

text \<open>
  What the system answers to a worker: the results of \<open>open\<close> and \<open>fdopen\<close>, the bytes
  its reads on the control pipe deliver (a read after them returns something other than
  1), the values of its four calls of \<open>time_so_far\<close> and two calls of \<open>cpu_so_far\<close>, the
  answers during each probe, and the results of the \<open>fsync\<close>, the \<open>close\<close> and the write
  of the report. \<open>sizeof(seeker_report)\<close> is 24.
\<close>

record worker_env =
  open_res :: int
  fdopen_ok :: bool
  tickets :: "8 word list"
  clock :: "nat \<Rightarrow> real option"
  cpu_clock :: "nat \<Rightarrow> real"
  probes :: "nat \<Rightarrow> probe_env"
  fsync_after_res :: int
  close_after_res :: int
  report_write_res :: int

definition read_ticket :: "8 word list \<Rightarrow> (halt + 8 word \<times> 8 word list) \<times> event list" where
  "read_ticket ts =
    (case ts of
       [] \<Rightarrow> (Inl (io_error ''read ticket''), [Sys_read_ticket None])
     | t # ts' \<Rightarrow> (Inr (t, ts'), [Sys_read_ticket (Some t)]))"

definition seek_child :: "worker_env \<Rightarrow> string \<Rightarrow> int \<Rightarrow> int \<Rightarrow> (halt + unit) \<times> event list" where
  "seek_child e filename file_size do_write =
    andthen (newfile filename 0 False 0 (open_res e) (fdopen_ok e))
     (\<lambda>fd. andthen (read_ticket (tickets e))
     (\<lambda>(t, ts). andthen (time_so_far (clock e 0))
     (\<lambda>last_timestamp. andthen (time_so_far (clock e 1))
     (\<lambda>start. andthen (seek_loop (probes e) file_size do_write t ts 0 [])
     (\<lambda>lseek_count. andthen (warn (Sys_fsync ''fsync after seek'' (fsync_after_res e))
                          (fsync_after_res e = - 1) ''fsync after seek'')
     (\<lambda>_. andthen (check (Sys_close ''close after seek'' (close_after_res e))
                          (close_after_res e = - 1) ''close after seek'')
     (\<lambda>_. andthen (time_so_far (clock e 2))
     (\<lambda>now. andthen (time_so_far (clock e 3))
     (\<lambda>end. andthen (check (Sys_write_report
                              [cpu_clock e 1 - cpu_clock e 0, start, end] (report_write_res e))
                          (report_write_res e \<noteq> 24) ''pipe write'')
     (\<lambda>_. (Inl (Exit 0 []), [])))))))))))"

section \<open>The control pipe and its readers\<close>

text \<open>
  The bytes written to the control pipe are read in order, each by one reader. The readers
  are the worker processes, each reading one byte at a time (lines 242, 252). A worker
  that has been given the bytes \<open>ts\<close> so far is waiting in a read on the pipe exactly when
  its code, run on these bytes alone, ends in the read that finds no byte (on the pipe that
  read blocks until a byte comes): \<open>wants_ticket\<close>. Which of the waiting workers gets the
  byte number \<open>k\<close> is the scheduler's choice \<open>sched k\<close>. \<open>deal\<close> returns the bytes each
  worker has read, and the bytes left in the pipe when no worker is waiting any more.
  \<open>wenv w\<close> is what the system answers to the worker \<open>w\<close> (but for the tickets).
\<close>

definition wants_ticket ::
  "(nat \<Rightarrow> worker_env) \<Rightarrow> string \<Rightarrow> int \<Rightarrow> int \<Rightarrow> nat \<Rightarrow> 8 word list \<Rightarrow> bool" where
  "wants_ticket wenv filename file_size do_write w ts =
    (let tr = snd (seek_child ((wenv w) \<lparr> tickets := ts \<rparr>) filename file_size do_write)
     in tr \<noteq> [] \<and> last tr = Sys_read_ticket None)"

fun deal ::
  "(nat \<Rightarrow> 8 word list \<Rightarrow> bool) \<Rightarrow> (nat \<Rightarrow> nat) \<Rightarrow> nat \<Rightarrow> 8 word list \<Rightarrow> 8 word list list
    \<Rightarrow> 8 word list list \<times> 8 word list" where
  "deal wants sched k [] rcv = (rcv, [])"
| "deal wants sched k (b # bs) rcv =
    (let waiting = filter (\<lambda>w. wants w (rcv ! w)) [0 ..< length rcv]
     in if waiting = [] then (rcv, b # bs)
        else
          let w = waiting ! (sched k mod length waiting)
          in deal wants sched (k + 1) bs (rcv[w := rcv ! w @ [b]]))"

definition pipe_run ::
  "(nat \<Rightarrow> nat) \<Rightarrow> 8 word list \<Rightarrow> (nat \<Rightarrow> worker_env) \<Rightarrow> string \<Rightarrow> int \<Rightarrow> int
    \<Rightarrow> 8 word list list \<times> 8 word list" where
  "pipe_run sched bytes wenv filename file_size do_write =
    deal (wants_ticket wenv filename file_size do_write) sched 0 bytes
      (replicate SeekProcCount [])"

text \<open>The run of the worker \<open>w\<close> on the bytes \<open>rcv ! w\<close> it has read.\<close>

definition worker_run ::
  "(nat \<Rightarrow> worker_env) \<Rightarrow> string \<Rightarrow> int \<Rightarrow> int \<Rightarrow> 8 word list list \<Rightarrow> nat
    \<Rightarrow> (halt + unit) \<times> event list" where
  "worker_run wenv filename file_size do_write rcv w =
    seek_child ((wenv w) \<lparr> tickets := rcv ! w \<rparr>) filename file_size do_write"

text \<open>
  A worker to which the system answers no failure: \<open>open\<close>, \<open>fdopen\<close> and its four
  \<open>gettimeofday\<close> calls succeed, every probe returns, the \<open>close\<close> succeeds and the
  report is written whole.
\<close>

definition calls_succeed :: "worker_env \<Rightarrow> int \<Rightarrow> int \<Rightarrow> bool" where
  "calls_succeed e file_size do_write =
    (open_res e \<noteq> - 1 \<and> fdopen_ok e \<and> (\<forall>k < 4. clock e k \<noteq> None)
     \<and> (\<forall>k. fst (seek_step (probes e k) file_size do_write k) = Inr ())
     \<and> close_after_res e \<noteq> - 1 \<and> report_write_res e = 24)"

text \<open>
  The state of the pipe's readers between two reads, when no worker ends early: the
  workers still reading are those that have read no byte 0, and a worker that has read a
  byte 0 has read exactly one, as its last byte.
\<close>

definition readers :: "8 word list list \<Rightarrow> nat list" where
  "readers rcv = filter (\<lambda>w. 0 \<notin> set (rcv ! w)) [0 ..< length rcv]"

definition pipe_inv :: "8 word list list \<Rightarrow> bool" where
  "pipe_inv rcv =
    (\<forall>w < length rcv. 0 \<in> set (rcv ! w) \<longrightarrow>
        rcv ! w \<noteq> [] \<and> last (rcv ! w) = 0 \<and> stop_tickets (rcv ! w) = 1)"

section \<open>The coordinator: \<open>do_seekstuff\<close> (lines 184--315)\<close>

text \<open>
  What the system answers to the process that runs \<open>do_seekstuff\<close>: the results of the
  two \<open>pipe\<close> calls, of the \<open>fork\<close> of each iteration (0 in the child, which then meets
  \<open>child_env\<close>), of the write of the tickets, of the read of each iteration on the report
  pipe with the contents of \<open>seeker_report\<close> after it, and of each \<open>wait\<close>. A \<open>wait\<close>
  that does not fail returns one of the caller's children that have not been waited for:
  \<open>wait_pick\<close> says which one, \<open>None\<close> is a failure.
\<close>

record seek_env =
  pipe_feedback_res :: int
  pipe_control_res :: int
  fork_res :: "nat \<Rightarrow> int"
  child_env :: "nat \<Rightarrow> worker_env"
  write_tickets_res :: int
  report_read_res :: "nat \<Rightarrow> int"
  report_read_buf :: "nat \<Rightarrow> nat \<Rightarrow> real"
  wait_pick :: "nat \<Rightarrow> nat option"

text \<open>
  The state \<open>do_seekstuff\<close> works on: the global \<open>delta\<close>, its locals \<open>first_start\<close>
  and \<open>last_stop\<close>, and the children of the process not waited for yet.
\<close>

record seek_state =
  delta :: "tests_t \<Rightarrow> nat \<Rightarrow> real"
  first_start :: real
  last_stop :: real
  children :: "int list"

text \<open>Lines 225--269: the loop that forks the workers.\<close>

function fork_loop ::
  "seek_env \<Rightarrow> string \<Rightarrow> int \<Rightarrow> int \<Rightarrow> nat \<Rightarrow> int list \<Rightarrow> event list
    \<Rightarrow> (halt + int list) \<times> event list" where
  "fork_loop env filename file_size do_write nxt chn tr =
    (if nxt < SeekProcCount then
       (let child = fork_res env nxt;
            tr1 = tr @ [Sys_fork child]
        in if child = - 1 then (Inl (io_error ''fork''), tr1)
        else if child = 0 then
          (case seek_child (child_env env nxt) filename file_size do_write of
             (r, evs) \<Rightarrow> (Inl (case r of Inl h \<Rightarrow> h | Inr u \<Rightarrow> Exit 0 []), tr1 @ evs))
        else fork_loop env filename file_size do_write (nxt + 1) (chn @ [child]) tr1)
     else (Inr chn, tr))"
  by pat_completeness auto
termination
  by (relation "measure (\<lambda>(env, filename, file_size, do_write, nxt, chn, tr). SeekProcCount - nxt)")
    auto

declare fork_loop.simps [simp del]

text \<open>
  Lines 296--308: what one report adds to \<open>delta[whereto][CPU]\<close>, \<open>first_start\<close> and
  \<open>last_stop\<close>, in the iteration \<open>next\<close>.
\<close>

definition absorb_report :: "tests_t \<Rightarrow> nat \<Rightarrow> (nat \<Rightarrow> real) \<Rightarrow> seek_state \<Rightarrow> seek_state" where
  "absorb_report whereto nxt seeker_report st =
    (let st1 = st \<lparr> delta := (delta st)
                  (whereto := (delta st whereto)
                     (CPU := delta st whereto CPU + seeker_report CPU)) \<rparr>
     in if nxt = 0
        then st1 \<lparr> first_start := seeker_report StartTime,
                  last_stop := seeker_report EndTime \<rparr>
        else st1 \<lparr> first_start :=
                    (if first_start st1 < seeker_report StartTime
                     then first_start st1 else seeker_report StartTime),
                  last_stop :=
                    (if last_stop st1 > seeker_report EndTime
                     then last_stop st1 else seeker_report EndTime) \<rparr>)"

text \<open>Lines 285--312: the loop that reads the reports and waits.\<close>

function collect_loop ::
  "seek_env \<Rightarrow> tests_t \<Rightarrow> nat \<Rightarrow> seek_state \<Rightarrow> event list \<Rightarrow> (halt + seek_state) \<times> event list" where
  "collect_loop env whereto nxt st tr =
    (if nxt < SeekProcCount then
       (let tr1 = tr @ [Sys_read_report (report_read_res env nxt)]
        in if report_read_res env nxt \<noteq> 24 then (Inl (io_error ''pipe read''), tr1)
        else
          let st2 = absorb_report whereto nxt (report_read_buf env nxt) st
          in (case (if children st2 = [] then None else wait_pick env nxt) of
                None \<Rightarrow> (Inl (io_error ''wait''), tr1 @ [Sys_wait (- 1)])
              | Some j \<Rightarrow>
                  let pid = children st2 ! (j mod length (children st2))
                  in collect_loop env whereto (nxt + 1)
                       (st2 \<lparr> children := remove1 pid (children st2) \<rparr>)
                       (tr1 @ [Sys_wait pid])))
     else (Inr st, tr))"
  by pat_completeness auto
termination
  by (relation "measure (\<lambda>(env, whereto, nxt, st, tr). SeekProcCount - nxt)") auto

declare collect_loop.simps [simp del]

definition do_seekstuff ::
  "seek_env \<Rightarrow> string \<Rightarrow> int \<Rightarrow> (nat \<Rightarrow> 8 word) \<Rightarrow> int \<Rightarrow> tests_t \<Rightarrow> seek_state
    \<Rightarrow> (halt + seek_state) \<times> event list" where
  "do_seekstuff env filename file_size a do_write whereto st =
    (let tr0 = [Sys_system ''dropthedamncaches'', Sys_pipe (pipe_feedback_res env)]
     in if pipe_feedback_res env = - 1 then (Inl (io_error ''pipe''), tr0)
     else let tr1 = tr0 @ [Sys_pipe (pipe_control_res env)]
     in if pipe_control_res env = - 1 then (Inl (io_error ''pipe''), tr1)
     else
       (case fork_loop env filename file_size do_write 0 (children st) tr1 of
          (Inl h, tr2) \<Rightarrow> (Inl h, tr2)
        | (Inr chn, tr2) \<Rightarrow>
            let tr3 = tr2 @ [Sys_write_tickets (ticket_bytes a) (write_tickets_res env)]
            in if write_tickets_res env \<noteq> int sizeof_seek_tickets
               then (Inl (io_error ''write tickets''), tr3)
               else
                 (case collect_loop env whereto 0
                         (st \<lparr> first_start := 0, last_stop := 0, children := chn \<rparr>) tr3 of
                    (Inl h, tr4) \<Rightarrow> (Inl h, tr4)
                  | (Inr st', tr4) \<Rightarrow>
                      (Inr (st' \<lparr> delta := (delta st')
                              (whereto := (delta st' whereto)
                                 (Elapsed := last_stop st' - first_start st')) \<rparr>), tr4))))"

text \<open>\<open>static double delta[(int) TestCount][2]\<close>: zero when the program starts.\<close>

definition delta_static :: "tests_t \<Rightarrow> nat \<Rightarrow> real" where
  "delta_static = (\<lambda>t i. 0)"

text \<open>The reads of reports and the waits in a trace.\<close>

fun is_report_read :: "event \<Rightarrow> bool" where
  "is_report_read (Sys_read_report r) = True"
| "is_report_read e = False"

fun is_wait :: "event \<Rightarrow> bool" where
  "is_wait (Sys_wait r) = True"
| "is_wait e = False"

fun is_fork :: "event \<Rightarrow> bool" where
  "is_fork (Sys_fork r) = True"
| "is_fork e = False"

fun is_ticket_write :: "event \<Rightarrow> bool" where
  "is_ticket_write (Sys_write_tickets b r) = True"
| "is_ticket_write e = False"

text \<open>A run in which every call succeeds, with three reports.\<close>

definition quiet_worker :: worker_env where
  "quiet_worker = \<lparr> open_res = 3, fdopen_ok = True, tickets = [1, 0],
      clock = (\<lambda>k. Some (real k)), cpu_clock = (\<lambda>k. real k), probes = (\<lambda>k. quiet_probe),
      fsync_after_res = 0, close_after_res = 0, report_write_res = 24 \<rparr>"

definition quiet_seek_env :: seek_env where
  "quiet_seek_env = \<lparr> pipe_feedback_res = 0, pipe_control_res = 0,
      fork_res = (\<lambda>k. 100 + int k), child_env = (\<lambda>k. quiet_worker),
      write_tickets_res = 100003, report_read_res = (\<lambda>k. 24),
      report_read_buf = (\<lambda>k i. [[1/2, 2, 7], [1/4, 1, 8], [1/4, 3, 9]] ! k ! i),
      wait_pick = (\<lambda>k. Some 0) \<rparr>"

definition seek_state0 :: seek_state where
  "seek_state0 = \<lparr> delta = delta_static, first_start = 0, last_stop = 0, children = [] \<rparr>"

section \<open>The command line (lines 359--381, 574--580)\<close>

text \<open>
  \<open>usage\<close> prints the usage line and calls \<open>exit(1)\<close>.
\<close>

definition usage :: halt where
  "usage = Exit 1 ''usage: bonnie [-d scratch-dir] [-s size-in-Mb] [-m machine-label]''"

text \<open>
  \<open>atoll\<close> of the C library: white space, an optional sign, then decimal digits up to
  the first other character. A value outside \<open>long long\<close> is not defined by C; the
  library's \<open>atoll\<close> is \<open>strtoll\<close>, which then returns \<open>LLONG_MAX\<close> or \<open>LLONG_MIN\<close>.
\<close>

definition LLONG_MAX :: int where "LLONG_MAX = 9223372036854775807"
definition LLONG_MIN :: int where "LLONG_MIN = - 9223372036854775808"

definition is_space :: "char \<Rightarrow> bool" where
  "is_space c = (c \<in> set [CHR '' '', CHR 0x09, CHR 0x0A, CHR 0x0B, CHR 0x0C, CHR 0x0D])"

definition is_digit :: "char \<Rightarrow> bool" where
  "is_digit c = (c \<in> set ''0123456789'')"

definition digit_val :: "char \<Rightarrow> int" where
  "digit_val c = int (of_char c) - 48"

definition atoll :: "string \<Rightarrow> int" where
  "atoll s =
    (let s1 = dropWhile is_space s;
         neg = (take 1 s1 = ''-'');
         s2 = (if take 1 s1 = ''-'' \<or> take 1 s1 = ''+'' then drop 1 s1 else s1);
         n = foldl (\<lambda>acc c. 10 * acc + digit_val c) 0 (takeWhile is_digit s2)
     in max LLONG_MIN (min LLONG_MAX (if neg then - n else n)))"

text \<open>The variables the options set: \<open>dir\<close>, \<open>file_size\<close>, \<open>machine\<close>, \<open>do_random\<close>
  (the fields carry the prefix \<open>o_\<close>).\<close>

record opts =
  o_dir :: string
  o_file_size :: int
  o_machine :: string
  o_do_random :: int

definition opts0 :: opts where
  "opts0 = \<lparr> o_dir = ''.'', o_file_size = 24, o_machine = '''', o_do_random = 0 \<rparr>"

text \<open>
  Lines 361--377: the loop over \<open>argv\<close> from \<open>next\<close>, while \<open>next < argc - 1\<close>. Each
  option, \<open>-r\<close> too, is followed by \<open>next++\<close> before the \<open>next++\<close> of the loop.
  \<open>argv[next][0] == '-'\<close> is \<open>take 1 (argv ! next) = ''-''\<close>, and
  \<open>strcmp(argv[next] + 1, "d") == 0\<close> is \<open>drop 1 (argv ! next) = ''d''\<close>.
\<close>

function parse_args :: "string list \<Rightarrow> nat \<Rightarrow> opts \<Rightarrow> halt + opts" where
  "parse_args argv nxt v =
    (if int nxt < int (length argv) - 1 then
       (if take 1 (argv ! nxt) = ''-'' then
          (if drop 1 (argv ! nxt) = ''d''
             then parse_args argv (nxt + 2) (v \<lparr> o_dir := argv ! (nxt + 1) \<rparr>)
           else if drop 1 (argv ! nxt) = ''s''
             then parse_args argv (nxt + 2) (v \<lparr> o_file_size := atoll (argv ! (nxt + 1)) \<rparr>)
           else if drop 1 (argv ! nxt) = ''m''
             then parse_args argv (nxt + 2) (v \<lparr> o_machine := argv ! (nxt + 1) \<rparr>)
           else if drop 1 (argv ! nxt) = ''r''
             then parse_args argv (nxt + 2) (v \<lparr> o_do_random := 1 \<rparr>)
           else Inl usage)
        else Inl usage)
     else Inr v)"
  by pat_completeness auto
termination
  by (relation "measure (\<lambda>(argv, nxt, v). length argv - nxt)") auto

declare parse_args.simps [simp del]

text \<open>Lines 359--381: the options, then the test of the size and its scaling.\<close>

definition main_args :: "string list \<Rightarrow> halt + opts" where
  "main_args argv =
    (case parse_args argv 1 opts0 of
       Inl h \<Rightarrow> Inl h
     | Inr v \<Rightarrow>
         if o_file_size v < 1 then Inl usage
         else Inr (v \<lparr> o_file_size := wrap_long (o_file_size v * (1024 * 1024 * 1024)) \<rparr>))"

section \<open>The sequential phases of \<open>main\<close> (lines 404--507)\<close>

text \<open>
  The benchmark file in these phases is a regular file with a length \<open>len\<close> and a
  position \<open>pos\<close> of the descriptor, in bytes. A \<open>read\<close> of \<open>Chunk\<close> bytes that does not
  fail returns the bytes left up to \<open>Chunk\<close>.
\<close>

definition file_read :: "bool \<Rightarrow> int \<Rightarrow> int \<Rightarrow> int" where
  "file_read fails pos len = (if fails then - 1 else max 0 (min Chunk (len - pos)))"

text \<open>
  Lines 412--414 and 438--440: \<open>if (bufindex == Chunk / IntSize) bufindex = 0;
  buf[bufindex++]++\<close>, which returns \<open>bufindex\<close> and \<open>buf\<close>.
\<close>

definition dirty :: "nat \<Rightarrow> 32 word list \<Rightarrow> nat \<times> 32 word list" where
  "dirty bufindex buf =
    (let i = (if int bufindex = Chunk sdiv IntSize then 0 else bufindex)
     in (i + 1, buf[i := buf ! i + 1]))"

subsection \<open>Writing the file (lines 404--425)\<close>

text \<open>
  What the system answers in this phase. \<open>fw_rand k\<close> is \<open>buf\<close> after
  \<open>randomize_buffer\<close> in iteration \<open>k\<close>, \<open>fw_write_res k\<close> what the \<open>write\<close> of
  iteration \<open>k\<close> returns. \<open>fw_steps\<close> is the number of iterations of the loop that are
  watched.
\<close>

record fw_env =
  fw_unlink_res :: int
  fw_open_res :: int
  fw_fdopen_ok :: bool
  fw_clock :: "nat \<Rightarrow> real option"
  fw_cpu :: "nat \<Rightarrow> real"
  fw_rand :: "nat \<Rightarrow> 32 word list"
  fw_write_res :: "nat \<Rightarrow> int"
  fw_steps :: nat
  fw_fsync_res :: int
  fw_close_res :: int

text \<open>
  The loop \<open>for (words = bufindex = 0; words < (file_size / (long long)Chunk); words++)\<close>,
  in its iteration \<open>k\<close>, with \<open>n = file_size / Chunk\<close>. \<open>words\<close> is an \<open>int\<close>: a word
  of 32 bits, read as a signed number in the comparison, and \<open>words++\<close> wraps around
  from \<open>2^31 - 1\<close> to \<open>- 2^31\<close> (what the usual compilers make of this overflow). So
  when \<open>n\<close> is above \<open>2^31 - 1\<close> (a size of 16 TiB, \<open>-s 16384\<close>) the loop goes on until
  a \<open>write\<close> fails. The first argument after \<open>n\<close> is the number of iterations still
  watched.
\<close>

fun write_loop ::
  "fw_env \<Rightarrow> int \<Rightarrow> int \<Rightarrow> nat \<Rightarrow> nat \<Rightarrow> 32 word \<Rightarrow> nat \<Rightarrow> 32 word list \<Rightarrow> int \<Rightarrow> event list
    \<Rightarrow> (halt + int) \<times> event list" where
  "write_loop e do_rand n 0 k words bufindex buf pos tr =
    (if sint words < n then (Inl Running, tr) else (Inr pos, tr))"
| "write_loop e do_rand n (Suc steps) k words bufindex buf pos tr =
    (if sint words < n then
       (case dirty bufindex buf of
          (bufindex1, buf1) \<Rightarrow>
            let buf2 = (if do_rand \<noteq> 0 then fw_rand e k else buf1);
                tr1 = tr @ [Sys_write ''write(2)'' pos buf2 Chunk (fw_write_res e k)]
            in if fw_write_res e k = - 1 then (Inl (io_error ''write(2)''), tr1)
               else write_loop e do_rand n steps (k + 1) (words + 1) bufindex1 buf2
                      (pos + fw_write_res e k) tr1)
     else (Inr pos, tr))"

text \<open>The phase returns the length of the file written and the new \<open>delta\<close>.\<close>

definition fast_write ::
  "fw_env \<Rightarrow> string \<Rightarrow> int \<Rightarrow> int \<Rightarrow> (tests_t \<Rightarrow> nat \<Rightarrow> real)
    \<Rightarrow> (halt + int \<times> (tests_t \<Rightarrow> nat \<Rightarrow> real)) \<times> event list" where
  "fast_write e filename fsize do_rand dl =
    andthen (newfile filename (- 1) True (fw_unlink_res e) (fw_open_res e) (fw_fdopen_ok e))
     (\<lambda>fd. andthen (time_so_far (fw_clock e 0))
     (\<lambda>t0. andthen (write_loop e do_rand (fsize sdiv Chunk) (fw_steps e) 0 0 0
                          (replicate 2048 42) 0 [])
     (\<lambda>len. andthen (warn (Sys_fsync ''fsync after fast write'' (fw_fsync_res e))
                          (fw_fsync_res e = - 1) ''fsync after fast write'')
     (\<lambda>_. andthen (check (Sys_close ''close after fast write'' (fw_close_res e))
                          (fw_close_res e = - 1) ''close after fast write'')
     (\<lambda>_. andthen (time_so_far (fw_clock e 1))
     (\<lambda>t1. (Inr (len, dl (FastWrite := (dl FastWrite)
                     (Elapsed := t1 - t0, CPU := fw_cpu e 1 - fw_cpu e 0))), [])))))))"

subsection \<open>Rewriting the file (lines 427--462)\<close>

text \<open>
  What the system answers in this phase: \<open>rw_read_fails k\<close> and \<open>rw_read_buf k\<close> are for
  the read number \<open>k\<close> (the one before the loop is number 0), the other functions for
  the iteration \<open>k\<close> of the loop. A \<open>write\<close> that does not fail writes the whole count.
\<close>

record rw_env =
  rw_open_res :: int
  rw_fdopen_ok :: bool
  rw_lseek0_res :: int
  rw_clock :: "nat \<Rightarrow> real option"
  rw_cpu :: "nat \<Rightarrow> real"
  rw_read_fails :: "nat \<Rightarrow> bool"
  rw_read_buf :: "nat \<Rightarrow> 32 word list"
  rw_lseek_fails :: "nat \<Rightarrow> bool"
  rw_rand :: "nat \<Rightarrow> 32 word list"
  rw_write1_fails :: "nat \<Rightarrow> bool"
  rw_write2_fails :: "nat \<Rightarrow> bool"
  rw_fsync_res :: int
  rw_close_res :: int

text \<open>
  The loop \<open>while (words == Chunk)\<close>, in iteration \<open>k\<close>, with the position and the length
  of the file. It returns the length of the file.
\<close>

function rewrite_loop ::
  "rw_env \<Rightarrow> int \<Rightarrow> nat \<Rightarrow> int \<Rightarrow> nat \<Rightarrow> 32 word list \<Rightarrow> int \<Rightarrow> int \<Rightarrow> event list
    \<Rightarrow> (halt + int) \<times> event list" where
  "rewrite_loop e do_rand k words bufindex buf pos len tr =
    (if words = Chunk then
       (case dirty bufindex buf of
          (bufindex1, buf1) \<Rightarrow>
            let pos1 = pos - words;
                tr1 = tr @ [Sys_lseek ''relative lseek(2)'' (- words)
                              (if rw_lseek_fails e k then - 1 else pos1)]
            in if rw_lseek_fails e k then (Inl (io_error ''relative lseek(2)''), tr1)
            else
              let buf2 = (if do_rand \<noteq> 0 then rw_rand e k else buf1);
                  tr2 = tr1 @ [Sys_write ''re write(2)'' pos1 buf2 words
                                 (if rw_write1_fails e k then - 1 else words)]
              in if rw_write1_fails e k then (Inl (io_error ''re write(2)''), tr2)
              else
                let pos2 = pos1 + words;
                    tr3 = tr2 @ [Sys_write ''re write(2)'' pos2 buf2 words
                                   (if rw_write2_fails e k then - 1 else words)]
                in if rw_write2_fails e k then (Inl (io_error ''re write(2)''), tr3)
                else
                  let pos3 = pos2 + words;
                      len3 = max len pos3;
                      words' = file_read (rw_read_fails e (k + 1)) pos3 len3;
                      tr4 = tr3 @ [Sys_read ''rwrite read'' Chunk words']
                  in if words' = - 1 then (Inl (io_error ''rwrite read''), tr4)
                     else rewrite_loop e do_rand (k + 1) words' bufindex1
                            (rw_read_buf e (k + 1)) (pos3 + words') len3 tr4)
     else (Inr len, tr))"
  by pat_completeness auto
termination
  by (relation "measure (\<lambda>(e, do_rand, k, words, bufindex, buf, pos, len, tr).
        2 * nat (len - pos) + (if words = Chunk then 1 else 0))")
    (auto simp: file_read_def Chunk_def split: if_splits)

declare rewrite_loop.simps [simp del]

text \<open>The phase, on a file of length \<open>len\<close>; it returns the length and the new \<open>delta\<close>.\<close>

definition rewrite ::
  "rw_env \<Rightarrow> string \<Rightarrow> int \<Rightarrow> int \<Rightarrow> int \<Rightarrow> (tests_t \<Rightarrow> nat \<Rightarrow> real)
    \<Rightarrow> (halt + int \<times> (tests_t \<Rightarrow> nat \<Rightarrow> real)) \<times> event list" where
  "rewrite e filename fd do_rand len dl =
    andthen (newfile filename fd False 0 (rw_open_res e) (rw_fdopen_ok e))
     (\<lambda>fd. andthen (check (Sys_lseek ''lseek(2) before rewrite'' 0 (rw_lseek0_res e))
                          (rw_lseek0_res e = - 1) ''lseek(2) before rewrite'')
     (\<lambda>_. andthen (time_so_far (rw_clock e 0))
     (\<lambda>t0. andthen (check (Sys_read ''rewrite read'' Chunk (file_read (rw_read_fails e 0) 0 len))
                          (file_read (rw_read_fails e 0) 0 len = - 1) ''rewrite read'')
     (\<lambda>_. andthen (rewrite_loop e do_rand 0 (file_read (rw_read_fails e 0) 0 len) 0
                          (rw_read_buf e 0) (file_read (rw_read_fails e 0) 0 len) len [])
     (\<lambda>len'. andthen (warn (Sys_fsync ''fsync after fast rewrite'' (rw_fsync_res e))
                          (rw_fsync_res e = - 1) ''fsync after fast rewrite'')
     (\<lambda>_. andthen (check (Sys_close ''close after rewrite'' (rw_close_res e))
                          (rw_close_res e = - 1) ''close after rewrite'')
     (\<lambda>_. andthen (time_so_far (rw_clock e 1))
     (\<lambda>t1. (Inr (len', dl (ReWrite := (dl ReWrite)
                     (Elapsed := t1 - t0, CPU := rw_cpu e 1 - rw_cpu e 0))), [])))))))))"

subsection \<open>Reading the file (lines 485--507)\<close>

record rd_env =
  rd_open_res :: int
  rd_fdopen_ok :: bool
  rd_lseek0_res :: int
  rd_clock :: "nat \<Rightarrow> real option"
  rd_cpu :: "nat \<Rightarrow> real"
  rd_read_fails :: "nat \<Rightarrow> bool"
  rd_close_res :: int

text \<open>The loop \<open>do { read } while (words)\<close>, at its read number \<open>k\<close>.\<close>

function read_loop ::
  "rd_env \<Rightarrow> nat \<Rightarrow> int \<Rightarrow> int \<Rightarrow> event list \<Rightarrow> (halt + unit) \<times> event list" where
  "read_loop e k pos len tr =
    (let words = file_read (rd_read_fails e k) pos len;
         tr1 = tr @ [Sys_read ''read(2)'' Chunk words]
     in if words = - 1 then (Inl (io_error ''read(2)''), tr1)
        else if words \<noteq> 0 then read_loop e (k + 1) (pos + words) len tr1
        else (Inr (), tr1))"
  by pat_completeness auto
termination
  by (relation "measure (\<lambda>(e, k, pos, len, tr). nat (len - pos))")
    (auto simp: file_read_def Chunk_def split: if_splits)

declare read_loop.simps [simp del]

definition fast_read ::
  "rd_env \<Rightarrow> string \<Rightarrow> int \<Rightarrow> int \<Rightarrow> (tests_t \<Rightarrow> nat \<Rightarrow> real)
    \<Rightarrow> (halt + (tests_t \<Rightarrow> nat \<Rightarrow> real)) \<times> event list" where
  "fast_read e filename fd len dl =
    andthen (Inr (), [Sys_system ''dropthedamncaches''])
     (\<lambda>_. andthen (newfile filename fd False 0 (rd_open_res e) (rd_fdopen_ok e))
     (\<lambda>fd. andthen (check (Sys_lseek ''lseek before read'' 0 (rd_lseek0_res e))
                          (rd_lseek0_res e = - 1) ''lseek before read'')
     (\<lambda>_. andthen (time_so_far (rd_clock e 0))
     (\<lambda>t0. andthen (read_loop e 0 0 len [])
     (\<lambda>_. andthen (check (Sys_close ''close after read'' (rd_close_res e))
                          (rd_close_res e = - 1) ''close after read'')
     (\<lambda>_. andthen (time_so_far (rd_clock e 1))
     (\<lambda>t1. (Inr (dl (FastRead := (dl FastRead)
                     (Elapsed := t1 - t0, CPU := rd_cpu e 1 - rd_cpu e 0))), []))))))))"

section \<open>\<open>main\<close> (lines 326--518)\<close>

text \<open>
  What the system answers to the main process: the results of \<open>atexit\<close> and of the three
  \<open>signal\<close> calls, the answers of each phase, the contents of the stack where
  \<open>seek_tickets\<close> lies at each call of \<open>do_seekstuff\<close>, and the result of the
  \<open>unlink\<close> of \<open>cleanup\<close>. \<open>pid\<close> is the process id as \<open>%d\<close> prints it.
\<close>

record main_env =
  atexit_res :: int
  signal_res :: "nat \<Rightarrow> int"
  pid :: string
  fw :: fw_env
  rw :: rw_env
  rd :: rd_env
  seek1 :: seek_env
  stack1 :: "nat \<Rightarrow> 8 word"
  seek2 :: seek_env
  stack2 :: "nat \<Rightarrow> 8 word"
  cleanup_unlink_res :: int

text \<open>Lines 340--355: \<open>exit(1)\<close> after \<open>perror\<close> when \<open>atexit\<close> returns -1 or a \<open>signal\<close>
  call returns a value other than 0.\<close>

definition main_setup :: "main_env \<Rightarrow> (halt + unit) \<times> event list" where
  "main_setup e =
    (if atexit_res e = - 1 then (Inl (Exit 1 ''atexit(3)''), [])
     else if signal_res e 0 \<noteq> 0 then (Inl (Exit 1 ''signal''), [])
     else if signal_res e 1 \<noteq> 0 then (Inl (Exit 1 ''signal''), [])
     else if signal_res e 2 \<noteq> 0 then (Inl (Exit 1 ''signal''), [])
     else (Inr (), []))"

text \<open>Lines 404--507: the three sequential phases, from the static \<open>delta\<close>.\<close>

definition sequential_phases ::
  "main_env \<Rightarrow> string \<Rightarrow> opts \<Rightarrow> (halt + (tests_t \<Rightarrow> nat \<Rightarrow> real)) \<times> event list" where
  "sequential_phases e filename v =
    andthen (fast_write (fw e) filename (o_file_size v) (o_do_random v) delta_static)
     (\<lambda>(len, dl). andthen (rewrite (rw e) filename (fw_open_res (fw e)) (o_do_random v) len dl)
     (\<lambda>(len', dl'). fast_read (rd e) filename (rw_open_res (rw e)) len' dl'))"

text \<open>Lines 514--515: \<open>do_seekstuff(0, Lseek); do_seekstuff(1, Lseek2)\<close>.\<close>

definition seek_phases ::
  "main_env \<Rightarrow> string \<Rightarrow> opts \<Rightarrow> (tests_t \<Rightarrow> nat \<Rightarrow> real)
    \<Rightarrow> (halt + seek_state) \<times> event list" where
  "seek_phases e filename v dl =
    andthen (do_seekstuff (seek1 e) filename (o_file_size v) (stack1 e) 0 Lseek
               \<lparr> delta = dl, first_start = 0, last_stop = 0, children = [] \<rparr>)
     (\<lambda>st. do_seekstuff (seek2 e) filename (o_file_size v) (stack2 e) 1 Lseek2 st)"

text \<open>
  The body of \<open>main\<close>: it ends with \<open>return 0\<close>, or earlier.
\<close>

definition main_run :: "main_env \<Rightarrow> string list \<Rightarrow> (halt + unit) \<times> event list" where
  "main_run e argv =
    andthen (main_setup e)
     (\<lambda>_. andthen (case main_args argv of Inl h \<Rightarrow> (Inl h, []) | Inr v \<Rightarrow> (Inr v, []))
     (\<lambda>v. andthen (sequential_phases e (o_dir v @ ''/bonnie.'' @ pid e) v)
     (\<lambda>dl. andthen (seek_phases e (o_dir v @ ''/bonnie.'' @ pid e) v dl)
     (\<lambda>st. (Inl (Exit 0 []), [])))))"

text \<open>
  \<open>cleanup\<close> (lines 169--175), the handler \<open>main\<close> registers with \<open>atexit\<close> (line 340):
  \<open>if (do_cleanup) { unlink(filename); report(); }\<close>. \<open>do_cleanup\<close> is 1, but in a
  process in which a \<open>fork\<close> of \<open>do_seekstuff\<close> has returned 0, which sets it to 0 (line
  232). The argument is the trace of the process so far.
\<close>

definition cleanup :: "main_env \<Rightarrow> event list \<Rightarrow> event list" where
  "cleanup e tr =
    (if Sys_fork 0 \<in> set tr then [] else [Sys_unlink (cleanup_unlink_res e), Call_report])"

text \<open>
  The process that runs \<open>main\<close>, with what follows the body: when the process ends by
  \<open>exit\<close> or by the return of \<open>main\<close>, the handler runs if \<open>atexit\<close> has registered it
  (\<open>atexit\<close> returns 0 then).
\<close>

definition main_process :: "main_env \<Rightarrow> string list \<Rightarrow> (halt + unit) \<times> event list" where
  "main_process e argv =
    (case main_run e argv of
       (r, tr) \<Rightarrow>
         (r, tr @ (case r of
                     Inl (Exit s d) \<Rightarrow> if atexit_res e = 0 then cleanup e tr else []
                   | _ \<Rightarrow> [])))"

text \<open>
  The calls of one iteration of the rewrite loop in which no call fails, for the block read
  at offset \<open>p\<close>: one seek back to \<open>p\<close>, two writes of the same buffer \<open>b\<close> and count
  \<open>Chunk\<close>, then the read of the next iteration, which returns \<open>w\<close>.
\<close>

fun rewrite_group :: "int \<times> 32 word list \<times> int \<Rightarrow> event list" where
  "rewrite_group (p, b, w) =
    [Sys_lseek ''relative lseek(2)'' (- Chunk) p,
     Sys_write ''re write(2)'' p b Chunk Chunk,
     Sys_write ''re write(2)'' (p + Chunk) b Chunk Chunk,
     Sys_read ''rwrite read'' Chunk w]"

text \<open>A rewrite phase in which no call fails.\<close>

definition quiet_rw :: rw_env where
  "quiet_rw = \<lparr> rw_open_res = 3, rw_fdopen_ok = True, rw_lseek0_res = 0,
      rw_clock = (\<lambda>k. Some (real k)), rw_cpu = (\<lambda>k. real k),
      rw_read_fails = (\<lambda>k. False), rw_read_buf = (\<lambda>k. replicate 2048 7),
      rw_lseek_fails = (\<lambda>k. False), rw_rand = (\<lambda>k. replicate 2048 5),
      rw_write1_fails = (\<lambda>k. False), rw_write2_fails = (\<lambda>k. False),
      rw_fsync_res = 0, rw_close_res = 0 \<rparr>"

section \<open>Failed calls on the benchmark file\<close>

text \<open>
  A call on the benchmark file has failed when it returned -1. \<open>site\<close> is the message
  of the place of the call. The three \<open>fsync\<close> calls at the end of a phase are the ones
  the source follows by \<open>perror\<close> instead of \<open>io_error\<close>.
\<close>

fun failed :: "event \<Rightarrow> bool" where
  "failed (Sys_lseek s off r) = (r = - 1)"
| "failed (Sys_read s n r) = (r = - 1)"
| "failed (Sys_write s p b n r) = (r = - 1)"
| "failed (Sys_fsync s r) = (r = - 1)"
| "failed (Sys_close s r) = (r = - 1)"
| "failed e = False"

fun site :: "event \<Rightarrow> string" where
  "site (Sys_lseek s off r) = s"
| "site (Sys_read s n r) = s"
| "site (Sys_write s p b n r) = s"
| "site (Sys_fsync s r) = s"
| "site (Sys_close s r) = s"
| "site e = []"

fun lenient :: "event \<Rightarrow> bool" where
  "lenient (Sys_fsync s r) =
     (s = ''fsync after seek'' \<or> s = ''fsync after fast write'' \<or> s = ''fsync after fast rewrite'')"
| "lenient e = False"

text \<open>
  A trace in which the only failed calls are \<open>fsync\<close> calls at the end of a phase, each
  followed at once by its diagnostic.
\<close>

fun clean :: "event list \<Rightarrow> bool" where
  "clean [] = True"
| "clean (e # es) =
     (if failed e then lenient e \<and> take 1 es = [Perror (site e)] \<and> clean es else clean es)"

text \<open>
  A run in which a failed call, other than an \<open>fsync\<close> at the end of a phase, is the last
  call of the process, which ends with the \<open>io_error\<close> of that place.
\<close>

definition run_ok :: "(halt + 'a) \<times> event list \<Rightarrow> bool" where
  "run_ok x =
    (case x of (r, tr) \<Rightarrow>
       clean tr \<or>
       (tr \<noteq> [] \<and> clean (butlast tr) \<and> failed (last tr) \<and> \<not> lenient (last tr)
          \<and> r = Inl (io_error (site (last tr)))))"

text \<open>The same with no exception, as the claim states it: every failed call is the last.\<close>

definition strict_ok :: "(halt + 'a) \<times> event list \<Rightarrow> bool" where
  "strict_ok x =
    (case x of (r, tr) \<Rightarrow>
       \<not> list_ex failed tr \<or>
       (tr \<noteq> [] \<and> \<not> list_ex failed (butlast tr) \<and> failed (last tr)
          \<and> r = Inl (io_error (site (last tr)))))"

text \<open>
  The workers a process has forked, the complete reports it has read, and whether a
  worker has written a complete report.
\<close>

fun forked :: "event list \<Rightarrow> nat" where
  "forked [] = 0"
| "forked (Sys_fork r # es) = (if r = - 1 \<or> r = 0 then forked es else forked es + 1)"
| "forked (e # es) = forked es"

fun reports_read :: "event list \<Rightarrow> nat" where
  "reports_read [] = 0"
| "reports_read (Sys_read_report r # es) = (if r = 24 then reports_read es + 1 else reports_read es)"
| "reports_read (e # es) = reports_read es"

fun is_report_write :: "event \<Rightarrow> bool" where
  "is_report_write (Sys_write_report b r) = True"
| "is_report_write e = False"

fun is_whole_report :: "event \<Rightarrow> bool" where
  "is_whole_report (Sys_write_report b r) = (r = 24)"
| "is_whole_report e = False"

definition wrote_report :: "(halt + unit) \<times> event list \<Rightarrow> bool" where
  "wrote_report x = list_ex is_whole_report (snd x)"

text \<open>A process in which a failed call on the benchmark file was fatal.\<close>

definition hit_failure :: "(halt + unit) \<times> event list \<Rightarrow> bool" where
  "hit_failure x = list_ex (\<lambda>ev. failed ev \<and> \<not> lenient ev) (snd x)"

text \<open>
  A step of the sequential phases: it forks no process and reads no report, and when the
  process ends in it, it is by \<open>exit(1)\<close>, unless it has not ended at all.
\<close>

fun plain_event :: "event \<Rightarrow> bool" where
  "plain_event (Sys_fork r) = False"
| "plain_event (Sys_read_report r) = False"
| "plain_event e = True"

definition seq_ok :: "(halt + 'a) \<times> event list \<Rightarrow> bool" where
  "seq_ok x =
    (list_all plain_event (snd x) \<and>
     (case fst x of Inl h \<Rightarrow> (\<exists>d. h = Exit 1 d) \<or> h = Running | Inr y \<Rightarrow> True))"

text \<open>
  The claim that the two writes of an iteration are redundant, in its words: both are at
  the offset of the block read, which is the offset the seek back returned.
\<close>

fun write_offsets :: "event list \<Rightarrow> int list" where
  "write_offsets [] = []"
| "write_offsets (Sys_write s p b n r # es) = p # write_offsets es"
| "write_offsets (e # es) = write_offsets es"

fun seek_back_offsets :: "event list \<Rightarrow> int list" where
  "seek_back_offsets [] = []"
| "seek_back_offsets (Sys_lseek s off r # es) = r # seek_back_offsets es"
| "seek_back_offsets (e # es) = seek_back_offsets es"

definition redundant_writes :: "event list \<Rightarrow> bool" where
  "redundant_writes tr = (write_offsets tr = concat (map (\<lambda>p. [p, p]) (seek_back_offsets tr)))"

section \<open>Theorems\<close>

lemma smod_nonneg: "0 \<le> a \<Longrightarrow> 0 < b \<Longrightarrow> (a::int) smod b = a mod b"
  by (simp add: signed_modulo_int_def sgn_if)
lemma sdiv_nonneg: "0 \<le> a \<Longrightarrow> 0 < b \<Longrightarrow> (a::int) sdiv b = a div b"
  by (simp add: signed_divide_int_def sgn_if)

subsection \<open>The word touched in the update branch\<close>

text \<open>
  Claim C10. In the update branch of \<open>doseek\<close>, when the read returned \<open>size\<close> bytes
  with \<open>size/IntSize \<ge> 3\<close> (and \<open>random()\<close> returns a value of its range), the divisor
  \<open>size/IntSize - 2\<close> is positive and the index of the decremented word,
  \<open>(random() % (size/IntSize - 2)) + 1\<close>, lies in \<open>[1, size/IntSize - 2]\<close>: it is neither
  the first word (index 0) nor the last word (index \<open>size/IntSize - 1\<close>) of the block read.
\<close>

theorem touch_index_inside_block:
  assumes "is_random r" and "3 \<le> sz sdiv IntSize"
  shows "0 < sz sdiv IntSize - 2 \<and> 1 \<le> touch_index r sz \<and> touch_index r sz \<le> sz sdiv IntSize - 2
     \<and> 0 < touch_index r sz \<and> touch_index r sz < sz sdiv IntSize - 1"
proof -
  let ?d = "sz sdiv IntSize - 2"
  have d: "0 < ?d" using assms(2) by simp
  have r: "0 \<le> r" using assms(1) by (simp add: is_random_def)
  have "r smod ?d = r mod ?d" using r d by (rule smod_nonneg)
  moreover have "0 \<le> r mod ?d" and "r mod ?d < ?d" using d by simp_all
  ultimately show ?thesis unfolding touch_index_def using d by (intro conjI; linarith)
qed

theorem touch_index_inside_block_witness:
  "is_random 12345 \<and> 3 \<le> 8192 sdiv IntSize \<and> touch_index 12345 8192 = 70 \<and> 8192 sdiv IntSize - 2 = 2046"
  using touch_index_inside_block [of 12345 8192]
  by (simp add: is_random_def IntSize_def touch_index_def signed_divide_int_def signed_modulo_int_def)

subsection \<open>The offset of a probe\<close>

lemma wrap_long_random: "is_random r \<Longrightarrow> wrap_long (r * 4294967295) = r * 4294967295"
  unfolding wrap_long_def is_random_def
  by (rule signed_take_bit_int_eq_self) auto

lemma seek_offset_random:
  assumes "is_random r" "0 < file_size"
  shows "seek_offset r file_size = Inr ((r * 4294967295) mod file_size)"
  using assms by (simp add: seek_offset_def wrap_long_random smod_nonneg is_random_def)

lemma seek_offset_zero_size: "seek_offset r 0 = Inl Sigfpe"
  by (simp add: seek_offset_def)

text \<open>
  The range of the offset and of the block \<open>doseek\<close> aligns it down to: for every value
  \<open>r\<close> of \<open>random()\<close> and every \<open>file_size\<close> that is a positive multiple of \<open>Chunk\<close>,
  the offset lies in \<open>[0, file_size)\<close> and the probe offset is a multiple of \<open>Chunk\<close>
  between 0 and \<open>file_size - Chunk\<close>.
\<close>

lemma seek_probe_in_file:
  assumes "is_random r" and "0 < file_size" and "Chunk dvd file_size"
  shows "\<exists>wher. seek_offset r file_size = Inr wher \<and> 0 \<le> wher \<and> wher < file_size
     \<and> Chunk dvd probe_of wher \<and> 0 \<le> probe_of wher \<and> probe_of wher \<le> wher
     \<and> probe_of wher \<le> file_size - Chunk"
proof -
  let ?w = "(r * 4294967295) mod file_size"
  have o: "seek_offset r file_size = Inr ?w" using assms by (simp add: seek_offset_random)
  have w: "0 \<le> ?w" "?w < file_size" using assms by simp_all
  have p: "probe_of ?w = (?w div Chunk) * Chunk"
    using w by (simp add: probe_of_def sdiv_nonneg Chunk_def)
  obtain k where k: "file_size = Chunk * k" using assms(3) by (auto simp: dvd_def)
  have "?w div Chunk < k" using w k by (simp add: Chunk_def div_less_iff_less_mult mult.commute)
  then have "(?w div Chunk) * Chunk \<le> (k - 1) * Chunk" by (simp add: Chunk_def)
  then have "probe_of ?w \<le> file_size - Chunk" using p k by (simp add: algebra_simps)
  moreover have "0 \<le> probe_of ?w" "probe_of ?w \<le> ?w" using p w by (simp_all add: Chunk_def)
  moreover have "Chunk dvd probe_of ?w" using p by simp
  ultimately show ?thesis using w o by blast
qed

text \<open>
  When \<open>file_size\<close> is a multiple of \<open>2^32\<close>, as it is for every size of 4 GiB or a
  multiple of it (the default of 24 GiB too), the offset is \<open>- r\<close> modulo \<open>2^32\<close>:
  since \<open>r < 2^31\<close>, within each stretch of 4 GiB only the upper half (and the first
  byte) is ever probed.
\<close>

lemma offset_mod_4g:
  assumes "is_random r" and "0 < file_size" and "4294967296 dvd file_size"
    and "seek_offset r file_size = Inr wher"
  shows "wher mod 4294967296 = (if r = 0 then 0 else 4294967296 - r)"
proof -
  have "wher = (r * 4294967295) mod file_size"
    using assms(1,2,4) by (simp add: seek_offset_random)
  then have "wher mod 4294967296 = (r * 4294967295) mod 4294967296"
    using assms(3) by (simp add: mod_mod_cancel)
  also have "r * 4294967295 = r * 4294967296 + (- r)" by simp
  also have "\<dots> mod 4294967296 = (- r) mod 4294967296" by (simp only: mod_mult_self3)
  also have "\<dots> = (if r = 0 then 0 else 4294967296 - r)"
  proof -
    have "r mod 4294967296 = r" using assms(1) by (simp add: is_random_def)
    then show ?thesis by (simp add: zmod_zminus1_eq_if)
  qed
  finally show ?thesis .
qed

lemma offset_lower_half_never:
  assumes "is_random r" and "0 < file_size" and "4294967296 dvd file_size"
    and "seek_offset r file_size = Inr wher"
  shows "wher mod 4294967296 = 0 \<or> 2147483648 < wher mod 4294967296"
  using offset_mod_4g [OF assms] assms(1) by (auto simp: is_random_def)

lemma offset_4g_zero: "{r. is_random r \<and> seek_offset r 4294967296 = Inr 0} = {0}"
proof -
  have "seek_offset r 4294967296 = Inr 0 \<longleftrightarrow> r = 0" if "is_random r" for r
  proof
    assume "seek_offset r 4294967296 = Inr 0"
    from offset_mod_4g [OF that _ _ this] show "r = 0"
      using that by (auto simp: is_random_def split: if_splits)
  next
    assume "r = 0"
    then show "seek_offset r 4294967296 = Inr 0" using that by (simp add: seek_offset_random)
  qed
  moreover have "is_random 0" by (simp add: is_random_def)
  ultimately show ?thesis by auto
qed

lemma offset_4g_one: "{r. is_random r \<and> seek_offset r 4294967296 = Inr 1} = {}"
proof -
  have "seek_offset r 4294967296 \<noteq> Inr 1" if "is_random r" for r
  proof
    assume "seek_offset r 4294967296 = Inr 1"
    from offset_mod_4g [OF that _ _ this] show False
      using that by (auto simp: is_random_def split: if_splits)
  qed
  then show ?thesis by auto
qed

text \<open>
  Claim C5 fails on the code. With \<open>file_size = 4 GiB\<close> (\<open>-s 4\<close>) the offset
  \<open>(random() * 0xFFFFFFFF) % file_size\<close> is \<open>- r mod 2^32\<close>: offset 0 is the image of
  one value of \<open>random()\<close> and offset 1 (like every offset from 1 to \<open>2^31\<close>) of none, so
  the offsets are not uniformly distributed over \<open>[0, file_size)\<close>.
\<close>

theorem offset_not_uniform: "\<not> offset_uniform 4294967296"
proof
  assume "offset_uniform 4294967296"
  then have "offset_count 4294967296 0 = offset_count 4294967296 1"
    unfolding offset_uniform_def by simp
  then show False by (simp add: offset_count_def offset_4g_zero offset_4g_one)
qed

theorem offset_not_uniform_witness:
  "0 \<le> (0::int) \<and> (0::int) < 4294967296 \<and> 0 \<le> (1::int) \<and> (1::int) < 4294967296
   \<and> offset_count 4294967296 0 = 1 \<and> offset_count 4294967296 1 = 0
   \<and> \<not> offset_uniform 4294967296"
  using offset_not_uniform by (simp add: offset_count_def offset_4g_zero offset_4g_one)

text \<open>The same at the default size of 24 GiB: offset 1 is never produced, offset 0 is.\<close>

lemma offset_not_uniform_default: "\<not> offset_uniform 25769803776"
proof
  assume "offset_uniform 25769803776"
  then have eq: "offset_count 25769803776 0 = offset_count 25769803776 1"
    unfolding offset_uniform_def by simp
  have "seek_offset r 25769803776 \<noteq> Inr 1" if "is_random r" for r
  proof
    assume "seek_offset r 25769803776 = Inr 1"
    from offset_mod_4g [OF that _ _ this] show False
      using that by (auto simp: is_random_def split: if_splits)
  qed
  then have one: "{r. is_random r \<and> seek_offset r 25769803776 = Inr 1} = {}" by auto
  have fin: "finite {r. is_random r \<and> seek_offset r 25769803776 = Inr 0}"
    by (rule finite_subset [of _ "{0 ..< 2147483648}"]) (auto simp: is_random_def)
  have "is_random 0" by (simp add: is_random_def)
  then have "0 \<in> {r. is_random r \<and> seek_offset r 25769803776 = Inr 0}"
    by (simp add: seek_offset_random)
  then have "0 < card {r. is_random r \<and> seek_offset r 25769803776 = Inr 0}"
    using fin by (auto simp: card_gt_0_iff)
  then show False using eq one by (simp add: offset_count_def)
qed

subsection \<open>The write duty cycle\<close>

lemma update_flag_iff: "update_flag k \<noteq> 0 \<longleftrightarrow> k mod 10 = 0"
proof -
  have "int k smod 10 = int k mod 10" by (simp add: smod_nonneg)
  also have "\<dots> = int (k mod 10)" by (simp add: zmod_int)
  finally show ?thesis by (simp add: update_flag_def UpdateSeek_def)
qed

lemma doseek_calls_append: "doseek_calls (a @ b) = doseek_calls a @ doseek_calls b"
  by (induction a rule: doseek_calls.induct) simp_all

lemma ticket_reads_append: "ticket_reads (a @ b) = ticket_reads a @ ticket_reads b"
  by (induction a rule: ticket_reads.induct) simp_all

text \<open>
  The calls of \<open>doseek\<close>: its entry, then calls among which there is a \<open>write\<close> only in
  the update branch (\<open>update && do_touch\<close>), and always one when \<open>doseek\<close> returns
  from that branch.
\<close>

lemma doseek_events:
  "\<exists>rest. snd (doseek e w u d) = Call_doseek w u d # rest
     \<and> \<not> list_ex is_call rest \<and> ticket_reads rest = []
     \<and> (list_ex is_write rest \<longrightarrow> u \<noteq> 0 \<and> d \<noteq> 0)
     \<and> (fst (doseek e w u d) = Inr () \<longrightarrow> list_ex is_write rest = (u \<noteq> 0 \<and> d \<noteq> 0))"
  by (simp add: doseek_def Let_def)

lemma seek_step_events:
  "(snd (seek_step e fs dw k) = [] \<and> fst (seek_step e fs dw k) \<noteq> Inr ())
   \<or> (\<exists>w rest. snd (seek_step e fs dw k) = Call_doseek w (update_flag k) dw # rest
        \<and> \<not> list_ex is_call rest \<and> ticket_reads rest = []
        \<and> (list_ex is_write rest \<longrightarrow> gate dw k)
        \<and> (fst (seek_step e fs dw k) = Inr () \<longrightarrow> list_ex is_write rest = gate dw k))"
proof (cases "seek_offset (r_offset e) fs")
  case (Inl h)
  then show ?thesis by (simp add: seek_step_def)
next
  case (Inr w)
  have s: "seek_step e fs dw k = doseek e w (update_flag k) dw"
    using Inr by (simp add: seek_step_def)
  have g: "(update_flag k \<noteq> 0 \<and> dw \<noteq> 0) = gate dw k"
    by (simp add: gate_def update_flag_iff)
  show ?thesis
    unfolding s using doseek_events [of e w "update_flag k" dw] unfolding g by blast
qed

lemma probe_writes_no_call: "\<not> list_ex is_call es \<Longrightarrow> probe_writes es = []"
  by (induction es) simp_all

lemma takeWhile_no_call: "\<not> list_ex is_call es \<Longrightarrow> takeWhile (\<lambda>x. \<not> is_call x) es = es"
  by (induction es) simp_all

lemma takeWhile_before_call:
  "is_call c \<Longrightarrow> takeWhile (\<lambda>x. \<not> is_call x) (a @ c # b) = takeWhile (\<lambda>x. \<not> is_call x) a"
  by (induction a) simp_all

lemma probe_writes_append_call:
  "is_call c \<Longrightarrow> probe_writes (a @ c # b) = probe_writes a @ probe_writes (c # b)"
  by (induction a) (simp_all add: takeWhile_before_call)

lemma probe_writes_one:
  assumes "is_call c" and "\<not> list_ex is_call rest"
  shows "probe_writes (tr @ c # rest) = probe_writes tr @ [list_ex is_write rest]"
  using assms by (simp add: probe_writes_append_call takeWhile_no_call probe_writes_no_call)

lemma window_shift:
  "length (filter (\<lambda>k. k mod 10 = 0) [Suc n ..< Suc n + 10])
     = length (filter (\<lambda>k. k mod 10 = (0::nat)) [n ..< n + 10])"
proof -
  have a: "[n ..< n + 10] = n # [Suc n ..< n + 10]" by (simp add: upt_conv_Cons)
  have b0: "Suc n + 10 = Suc (n + 10)" by simp
  have b: "[Suc n ..< Suc (n + 10)] = [Suc n ..< n + 10] @ [n + 10]"
    by (rule upt_Suc_append) simp
  have c: "(n + 10) mod 10 = 0 \<longleftrightarrow> n mod 10 = 0" by simp
  show ?thesis unfolding b0 a b using c by simp
qed

lemma one_in_ten: "length (filter (\<lambda>k. k mod 10 = (0::nat)) [n ..< n + 10]) = 1"
proof (induction n)
  case 0
  have "[0 ..< 0 + 10] = [0,1,2,3,4,5,6,7,8,9::nat]" by (simp add: upt_conv_Cons)
  then show ?case by simp
next
  case (Suc n)
  then show ?case using window_shift [of n] by simp
qed

lemma count_gate:
  "length (filter id (map (gate dw) [n ..< n + 10])) = (if dw \<noteq> 0 then 1 else 0)"
proof (cases "dw = 0")
  case True
  then show ?thesis by (simp add: gate_def filter_map comp_def)
next
  case False
  then have "filter id (map (gate dw) [n ..< n + 10])
      = map (gate dw) (filter (\<lambda>k. k mod 10 = 0) [n ..< n + 10])"
    by (simp add: gate_def filter_map comp_def)
  then show ?thesis using False one_in_ten [of n] by simp
qed

text \<open>
  The probes of a worker's loop, from the probe with \<open>lseek_count = c\<close> on: a probe from
  which \<open>doseek\<close> returned has issued a \<open>write\<close> exactly when \<open>lseek_count\<close> is a
  multiple of 10 and the phase writes. When the process ended in the loop, its last probe
  may have been cut short.
\<close>

lemma gate_upt_Cons: "c < c' \<Longrightarrow> gate dw c # map (gate dw) [Suc c ..< c'] = map (gate dw) [c ..< c']"
  by (simp add: upt_conv_Cons)

lemma seek_loop_probe_writes:
  "seek_loop pe fs dw t ts c tr = (r, tr') \<Longrightarrow>
     \<exists>ws. probe_writes tr' = probe_writes tr @ ws
       \<and> (case r of
            Inr c' \<Rightarrow> c \<le> c' \<and> ws = map (gate dw) [c ..< c']
          | Inl h \<Rightarrow> butlast ws = map (gate dw) [c ..< c + (length ws - 1)])"
proof (induction pe fs dw t ts c tr arbitrary: r tr' rule: seek_loop.induct)
  case (1 pe fs dw t ts c tr)
  let ?P = "\<lambda>ws. probe_writes tr' = probe_writes tr @ ws
       \<and> (case r of
            Inr c' \<Rightarrow> c \<le> c' \<and> ws = map (gate dw) [c ..< c']
          | Inl h \<Rightarrow> butlast ws = map (gate dw) [c ..< c + (length ws - 1)])"
  show ?case
  proof (cases "t = 0")
    case True
    then have "r = Inr c" "tr' = tr" using "1.prems" by simp_all
    then have "?P []" by simp
    then show ?thesis by blast
  next
    case False
    obtain res evs where d: "seek_step (pe c) fs dw c = (res, evs)"
      by (cases "seek_step (pe c) fs dw c")
    note ev = seek_step_events [of "pe c" fs dw c, unfolded d fst_conv snd_conv]
    show ?thesis
    proof (cases res)
      case (Inl h)
      then have r: "r = Inl h" "tr' = tr @ evs" using False d "1.prems" by simp_all
      from ev show ?thesis
      proof
        assume "evs = [] \<and> res \<noteq> Inr ()"
        then have "?P []" using r by simp
        then show ?thesis by blast
      next
        assume "\<exists>w rest. evs = Call_doseek w (update_flag c) dw # rest
          \<and> \<not> list_ex is_call rest \<and> ticket_reads rest = []
          \<and> (list_ex is_write rest \<longrightarrow> gate dw c)
          \<and> (res = Inr () \<longrightarrow> list_ex is_write rest = gate dw c)"
        then obtain w rest where e: "evs = Call_doseek w (update_flag c) dw # rest"
          "\<not> list_ex is_call rest" by blast
        have "probe_writes tr' = probe_writes tr @ [list_ex is_write rest]"
          unfolding r e using e(2) by (intro probe_writes_one) simp_all
        then have "?P [list_ex is_write rest]" using r by simp
        then show ?thesis by blast
      qed
    next
      case (Inr u)
      from ev Inr obtain w rest where e: "evs = Call_doseek w (update_flag c) dw # rest"
        "\<not> list_ex is_call rest" "list_ex is_write rest = gate dw c" by auto
      have step: "probe_writes (tr @ evs @ [Sys_read_ticket b]) = probe_writes tr @ [gate dw c]" for b
      proof -
        have "probe_writes (tr @ Call_doseek w (update_flag c) dw # (rest @ [Sys_read_ticket b]))
            = probe_writes tr @ [list_ex is_write (rest @ [Sys_read_ticket b])]"
          using e(2) by (intro probe_writes_one) simp_all
        then show ?thesis using e by simp
      qed
      show ?thesis
      proof (cases ts)
        case Nil
        then have r: "r = Inl (io_error ''read ticket'')" "tr' = tr @ evs @ [Sys_read_ticket None]"
          using False d Inr "1.prems" by simp_all
        have "?P [gate dw c]" using r step [of None] by simp
        then show ?thesis by blast
      next
        case (Cons t' ts')
        have run: "seek_loop pe fs dw t' ts' (c + 1) (tr @ evs @ [Sys_read_ticket (Some t')]) = (r, tr')"
          using False d Inr Cons "1.prems" by simp
        from "1.IH" [OF False d [symmetric] Inr Cons run]
        obtain ws where ws: "probe_writes tr' = probe_writes (tr @ evs @ [Sys_read_ticket (Some t')]) @ ws"
          "case r of Inr c' \<Rightarrow> c + 1 \<le> c' \<and> ws = map (gate dw) [c + 1 ..< c']
            | Inl h \<Rightarrow> butlast ws = map (gate dw) [c + 1 ..< c + 1 + (length ws - 1)]"
          by blast
        have a: "probe_writes tr' = probe_writes tr @ (gate dw c # ws)"
          using ws(1) step [of "Some t'"] by simp
        have b: "case r of
            Inr c' \<Rightarrow> c \<le> c' \<and> gate dw c # ws = map (gate dw) [c ..< c']
          | Inl h \<Rightarrow> butlast (gate dw c # ws) = map (gate dw) [c ..< c + (length (gate dw c # ws) - 1)]"
        proof (cases r)
          case (Inr c')
          then show ?thesis using ws(2) gate_upt_Cons [of c c' dw] by simp
        next
          case (Inl h)
          show ?thesis
          proof (cases "ws = []")
            case True
            then show ?thesis using Inl by simp
          next
            case ne: False
            then have l: "c + 1 + (length ws - 1) = c + length ws" by (cases ws) simp_all
            have "butlast ws = map (gate dw) [c + 1 ..< c + 1 + (length ws - 1)]"
              using ws(2) Inl by (simp del: upt_Suc)
            then have "butlast ws = map (gate dw) [Suc c ..< c + length ws]"
              unfolding l by simp
            moreover have "c < c + length ws" using ne by simp
            ultimately have "gate dw c # butlast ws = map (gate dw) [c ..< c + length ws]"
              using gate_upt_Cons [of c "c + length ws" dw] by simp
            then show ?thesis using Inl ne by simp
          qed
        qed
        have "?P (gate dw c # ws)" using a b by simp
        then show ?thesis by blast
      qed
    qed
  qed
qed

lemma seek_loop_no_write:
  "filter is_write (snd (seek_loop pe fs 0 t ts c tr)) = filter is_write tr"
proof (induction pe fs "0::int" t ts c tr rule: seek_loop.induct)
  case (1 pe fs t ts c tr)
  obtain res evs where d: "seek_step (pe c) fs 0 c = (res, evs)"
    by (cases "seek_step (pe c) fs 0 c")
  have nw: "filter is_write evs = []"
    using seek_step_events [of "pe c" fs 0 c, unfolded d fst_conv snd_conv]
    by (auto simp: gate_def filter_empty_conv list_ex_iff)
  show ?case
  proof (cases "t = 0")
    case True
    then show ?thesis by simp
  next
    case False
    show ?thesis
    proof (cases res)
      case (Inl h)
      then show ?thesis using False d nw by simp
    next
      case (Inr u)
      show ?thesis
      proof (cases ts)
        case Nil
        then show ?thesis using False d nw Inr by simp
      next
        case (Cons t' ts')
        from "1.hyps" [OF False d [symmetric] Inr Cons]
        show ?thesis using False d nw Inr Cons by simp
      qed
    qed
  qed
qed

text \<open>
  Claim C4. In a worker's loop, whatever the system answers and whatever \<open>random()\<close>
  returns (\<open>pe\<close>): among the probes the worker has completed (all its probes, but the last
  one when the process ended in the loop, where a failed call may have cut that probe
  short) the probes during which \<open>doseek\<close> issues its \<open>write\<close> are those whose
  \<open>lseek_count\<close> is a multiple of 10 when \<open>do_write\<close> is not 0, and none when it is 0.
  So exactly one of any 10 consecutive probes of the worker writes back when the phase
  allows writes, and with \<open>do_write = 0\<close> the worker issues no write at all.
\<close>

theorem duty_cycle:
  assumes "seek_loop pe file_size do_write t ts 0 [] = (r, tr)"
      and "completed = (if isl r then butlast (probe_writes tr) else probe_writes tr)"
      and "n + 10 \<le> length completed"
  shows "length (filter id (take 10 (drop n completed))) = (if do_write \<noteq> 0 then 1 else 0)
     \<and> completed = map (\<lambda>k. k mod 10 = 0 \<and> do_write \<noteq> 0) [0 ..< length completed]
     \<and> (do_write = 0 \<longrightarrow> filter is_write tr = [])"
proof -
  obtain ws where ws: "probe_writes tr = ws"
    "case r of Inr c' \<Rightarrow> ws = map (gate do_write) [0 ..< c']
       | Inl h \<Rightarrow> butlast ws = map (gate do_write) [0 ..< 0 + (length ws - 1)]"
    using seek_loop_probe_writes [OF assms(1)] by (auto split: sum.splits)
  have "\<exists>m. completed = map (gate do_write) [0 ..< m]"
    using ws assms(2) by (cases r) auto
  then obtain m where m: "completed = map (gate do_write) [0 ..< m]" by blast
  then have le: "n + 10 \<le> m" using assms(3) by simp
  have "take 10 (drop n completed) = map (gate do_write) (take 10 (drop n [0 ..< m]))"
    by (simp add: m take_map drop_map)
  also have "take 10 (drop n [0 ..< m]) = [n ..< n + 10]"
    using le by (simp add: drop_upt take_upt)
  finally have a: "length (filter id (take 10 (drop n completed))) = (if do_write \<noteq> 0 then 1 else 0)"
    by (simp only: count_gate)
  have b: "completed = map (\<lambda>k. k mod 10 = 0 \<and> do_write \<noteq> 0) [0 ..< length completed]"
    using m by (simp add: gate_def)
  have c: "do_write = 0 \<Longrightarrow> filter is_write tr = []"
    using seek_loop_no_write [of pe file_size t ts 0 "[]"] assms(1) by simp
  show ?thesis using a b c by simp
qed

lemma seek_offset_0: "fs \<noteq> 0 \<Longrightarrow> seek_offset 0 fs = Inr 0"
  by (simp add: seek_offset_def wrap_long_def)

lemma seek_step_quiet_plain:
  "k mod 10 \<noteq> 0 \<Longrightarrow> seek_step quiet_probe 1073741824 1 k
     = (Inr (), [Call_doseek 0 0 1, Sys_lseek ''lseek in doseek'' 0 0,
          Sys_read ''read in doseek'' 8192 8192])"
  using update_flag_iff [of k]
  by (simp add: seek_step_def seek_offset_0 doseek_def quiet_probe_def probe_of_def Chunk_def)

lemma update_flag_1: "k mod 10 = 0 \<Longrightarrow> update_flag k = 1"
  using update_flag_iff [of k] by (simp add: update_flag_def split: if_splits)

lemma seek_step_quiet_update:
  "k mod 10 = 0 \<Longrightarrow> seek_step quiet_probe 1073741824 1 k
     = (Inr (), [Call_doseek 0 1 1, Sys_lseek ''lseek in doseek'' 0 0,
          Sys_read ''read in doseek'' 8192 8192, Sys_lseek ''lseek in doseek update'' 0 0,
          Sys_write ''write in doseek'' 0 ((replicate 2048 7) [1 := 6]) 8192 8192,
          Sys_fsync ''fsync(2) in seek w/write(2)'' 0])"
  by (simp add: seek_step_def seek_offset_0 update_flag_1 doseek_def quiet_probe_def probe_of_def
      Chunk_def IntSize_def touch_word_def touch_index_def signed_divide_int_def)

lemma quiet_loop_run:
  "\<exists>tr. seek_loop (\<lambda>k. quiet_probe) 1073741824 1 1 [1, 1, 1, 1, 1, 1, 1, 1, 1, 1, 0] 0 []
          = (Inr 11, tr)
     \<and> probe_writes tr
          = [True, False, False, False, False, False, False, False, False, False, True]"
  by (simp add: seek_step_quiet_plain seek_step_quiet_update)

theorem duty_cycle_witness:
  "\<exists>tr. seek_loop (\<lambda>k. quiet_probe) 1073741824 1 1 [1, 1, 1, 1, 1, 1, 1, 1, 1, 1, 0] 0 []
          = (Inr 11, tr)
     \<and> probe_writes tr
          = [True, False, False, False, False, False, False, False, False, False, True]
     \<and> length (filter id (take 10 (drop 1 (probe_writes tr)))) = 1"
proof -
  obtain tr where run:
    "seek_loop (\<lambda>k. quiet_probe) 1073741824 1 1 [1, 1, 1, 1, 1, 1, 1, 1, 1, 1, 0] 0 [] = (Inr 11, tr)"
    and pw: "probe_writes tr
          = [True, False, False, False, False, False, False, False, False, False, True]"
    using quiet_loop_run by blast
  have "length (filter id (take 10 (drop 1 (probe_writes tr)))) = 1"
    using duty_cycle [OF run, of "probe_writes tr" 1] pw by simp
  then show ?thesis using run pw by blast
qed

subsection \<open>The ticket buffer and its consumption\<close>

lemma fill_tickets_eq:
  "fill_tickets nxt bound v a =
     (max nxt bound, (\<lambda>i. if nxt \<le> i \<and> i < bound then v else a i))"
proof (induction nxt bound v a rule: fill_tickets.induct)
  case (1 nxt bound v a)
  show ?case
  proof (cases "nxt < bound")
    case True
    have "fill_tickets nxt bound v a = fill_tickets (nxt + 1) bound v (a(nxt := v))"
      using True by (subst fill_tickets.simps) simp
    also have "\<dots> = (max (nxt + 1) bound,
        (\<lambda>i. if nxt + 1 \<le> i \<and> i < bound then v else (a(nxt := v)) i))"
      using "1.IH" [OF True] .
    also have "\<dots> = (max nxt bound, (\<lambda>i. if nxt \<le> i \<and> i < bound then v else a i))"
      using True by (auto simp: fun_eq_iff)
    finally show ?thesis .
  next
    case False
    then show ?thesis by (subst fill_tickets.simps) (auto simp: fun_eq_iff)
  qed
qed

lemma seek_tickets_eq:
  "seek_tickets a i = (if i < Seeks then 1 else if i < Seeks + SeekProcCount then 0 else a i)"
  by (simp add: seek_tickets_def fill_tickets_eq)

lemma ticket_bytes_eq: "ticket_bytes a = replicate Seeks 1 @ replicate SeekProcCount 0"
proof (rule nth_equalityI)
  show "length (ticket_bytes a) = length (replicate Seeks (1::8 word) @ replicate SeekProcCount 0)"
    by (simp add: ticket_bytes_def sizeof_seek_tickets_def)
next
  fix i assume "i < length (ticket_bytes a)"
  then have i: "i < Seeks + SeekProcCount"
    by (simp add: ticket_bytes_def sizeof_seek_tickets_def)
  then have "ticket_bytes a ! i = seek_tickets a i"
    by (simp add: ticket_bytes_def sizeof_seek_tickets_def)
  also have "\<dots> = (replicate Seeks 1 @ replicate SeekProcCount 0) ! i"
    using i by (simp add: seek_tickets_eq nth_append)
  finally show "ticket_bytes a ! i = (replicate Seeks 1 @ replicate SeekProcCount 0) ! i" .
qed

lemma sum_list_map_update:
  fixes f :: "'a \<Rightarrow> nat"
  shows "w < length xs \<Longrightarrow> sum_list (map f (xs[w := x])) + f (xs ! w) = sum_list (map f xs) + f x"
proof (induction xs arbitrary: w)
  case Nil
  then show ?case by simp
next
  case (Cons y ys)
  then show ?case by (cases w) auto
qed

subsection \<open>A worker on the tickets it is given\<close>

lemma doseek_calls_no_call: "\<not> list_ex is_call es \<Longrightarrow> doseek_calls es = []"
  by (induction es rule: doseek_calls.induct) simp_all

lemma seek_step_returned:
  assumes "seek_step e fs dw k = (Inr (), evs)"
  shows "length (doseek_calls evs) = 1" and "ticket_reads evs = []"
  using seek_step_events [of e fs dw k] assms by (auto simp: doseek_calls_no_call)

text \<open>
  When every probe returns, the loop of a worker given the non-zero bytes \<open>xs\<close> and then a
  0 probes once for each byte of \<open>xs\<close>, reads every byte and then leaves the loop; given
  non-zero bytes only, it ends in the read that finds no byte.
\<close>

lemma seek_loop_step_ok:
  "t \<noteq> 0 \<Longrightarrow> seek_step (pe c) fs dw c = (Inr (), evs) \<Longrightarrow>
     seek_loop pe fs dw t (t' # ts') c tr
       = seek_loop pe fs dw t' ts' (c + 1) (tr @ evs @ [Sys_read_ticket (Some t')])"
  by (subst seek_loop.simps) (simp del: seek_loop.simps)

lemma seek_loop_served:
  assumes ok: "\<And>k. fst (seek_step (pe k) fs dw k) = Inr ()"
  shows "\<forall>x \<in> set xs. x \<noteq> 0 \<Longrightarrow>
    \<exists>tr'. seek_loop pe fs dw (hd (xs @ [0])) (tl (xs @ [0])) c tr = (Inr (c + length xs), tr')
      \<and> length (doseek_calls tr') = length (doseek_calls tr) + length xs
      \<and> ticket_reads tr' = ticket_reads tr @ map Some (tl (xs @ [0]))"
proof (induction xs arbitrary: c tr)
  case Nil
  then show ?case by simp
next
  case (Cons x xs)
  obtain evs where d: "seek_step (pe c) fs dw c = (Inr (), evs)"
    using ok [of c] by (cases "seek_step (pe c) fs dw c") auto
  note ev = seek_step_returned [OF d]
  obtain t' ts' where e: "xs @ [0] = t' # ts'" by (cases "xs @ [0]") auto
  then have ht: "hd (xs @ [0]) = t'" "tl (xs @ [0]) = ts'" by simp_all
  let ?tr = "tr @ evs @ [Sys_read_ticket (Some t')]"
  have nz: "\<forall>x \<in> set xs. x \<noteq> 0" and x: "x \<noteq> 0" using Cons.prems by simp_all
  obtain tr' where r: "seek_loop pe fs dw t' ts' (c + 1) ?tr = (Inr (c + 1 + length xs), tr')"
    "length (doseek_calls tr') = length (doseek_calls ?tr) + length xs"
    "ticket_reads tr' = ticket_reads ?tr @ map Some ts'"
    using Cons.IH [OF nz, of "c + 1" ?tr] unfolding ht by blast
  have "seek_loop pe fs dw x (t' # ts') c tr = (Inr (c + 1 + length xs), tr')"
    using seek_loop_step_ok [where pe = pe and c = c, OF x d] r(1) by simp
  then have "seek_loop pe fs dw (hd ((x # xs) @ [0])) (tl ((x # xs) @ [0])) c tr
      = (Inr (c + length (x # xs)), tr')"
    using e by simp
  moreover have "length (doseek_calls tr') = length (doseek_calls tr) + length (x # xs)"
    using r(2) ev by (simp add: doseek_calls_append)
  moreover have "ticket_reads tr' = ticket_reads tr @ map Some (tl ((x # xs) @ [0]))"
    using r(3) ev e by (simp add: ticket_reads_append)
  ultimately show ?case by blast
qed

lemma seek_loop_starved:
  assumes ok: "\<And>k. fst (seek_step (pe k) fs dw k) = Inr ()"
  shows "xs \<noteq> [] \<Longrightarrow> \<forall>x \<in> set xs. x \<noteq> 0 \<Longrightarrow>
    \<exists>tr'. seek_loop pe fs dw (hd xs) (tl xs) c tr = (Inl (io_error ''read ticket''), tr')
      \<and> tr' \<noteq> [] \<and> last tr' = Sys_read_ticket None"
proof (induction xs arbitrary: c tr)
  case Nil
  then show ?case by simp
next
  case (Cons x xs)
  obtain evs where d: "seek_step (pe c) fs dw c = (Inr (), evs)"
    using ok [of c] by (cases "seek_step (pe c) fs dw c") auto
  have x: "x \<noteq> 0" using Cons.prems by simp
  show ?case
  proof (cases xs)
    case Nil
    have "seek_loop pe fs dw x [] c tr
        = (Inl (io_error ''read ticket''), tr @ evs @ [Sys_read_ticket None])"
      using x d by (subst seek_loop.simps) (simp del: seek_loop.simps)
    then show ?thesis using Nil by simp
  next
    case (Cons y ys)
    then have ne: "xs \<noteq> []" and nz: "\<forall>x \<in> set xs. x \<noteq> 0" using Cons.prems by simp_all
    have "seek_loop pe fs dw x (y # ys) c tr
        = seek_loop pe fs dw y ys (c + 1) (tr @ evs @ [Sys_read_ticket (Some y)])"
      using seek_loop_step_ok [where pe = pe and c = c, OF x d] .
    then show ?thesis
      using Cons.IH [OF ne nz, of "c + 1" "tr @ evs @ [Sys_read_ticket (Some y)]"] Cons
      by simp
  qed
qed

text \<open>The worker process, when no call fails, around its loop.\<close>

lemma seek_child_on_tickets:
  assumes "calls_succeed e fs dw" and "tickets e = t # ts"
  shows "\<exists>pre post. seek_child e fn fs dw =
      (case seek_loop (probes e) fs dw t ts 0 [] of
         (Inl h, tr) \<Rightarrow> (Inl h, pre @ tr)
       | (Inr c, tr) \<Rightarrow> (Inl (Exit 0 []), pre @ tr @ post))
    \<and> doseek_calls pre = [] \<and> ticket_reads pre = [Some t]
    \<and> doseek_calls post = [] \<and> ticket_reads post = []
    \<and> post \<noteq> [] \<and> last post \<noteq> Sys_read_ticket None"
proof -
  have "\<forall>k < 4. clock e k \<noteq> None" using assms(1) by (simp add: calls_succeed_def)
  then have "clock e 0 \<noteq> None" "clock e 1 \<noteq> None" "clock e 2 \<noteq> None" "clock e 3 \<noteq> None"
    by simp_all
  then obtain c0 c1 c2 c3 where c: "clock e 0 = Some c0" "clock e 1 = Some c1"
    "clock e 2 = Some c2" "clock e 3 = Some c3" by auto
  let ?pre = "[Sys_open (open_res e), Sys_fdopen True, Sys_read_ticket (Some t),
    Sys_gettimeofday True, Sys_gettimeofday True]"
  let ?post = "snd (warn (Sys_fsync ''fsync after seek'' (fsync_after_res e))
                     (fsync_after_res e = - 1) ''fsync after seek'')
    @ [Sys_close ''close after seek'' (close_after_res e),
       Sys_gettimeofday True, Sys_gettimeofday True,
       Sys_write_report [cpu_clock e 1 - cpu_clock e 0, c1, c3] 24]"
  have "seek_child e fn fs dw =
      (case seek_loop (probes e) fs dw t ts 0 [] of
         (Inl h, tr) \<Rightarrow> (Inl h, ?pre @ tr)
       | (Inr c, tr) \<Rightarrow> (Inl (Exit 0 []), ?pre @ tr @ ?post))"
    using assms c
    by (simp add: seek_child_def calls_succeed_def newfile_def check_def read_ticket_def
        time_so_far_def warn_def split: prod.splits sum.splits del: seek_loop.simps)
  moreover have "doseek_calls ?post = []" "ticket_reads ?post = []"
    by (simp_all add: warn_def doseek_calls_append ticket_reads_append)
  ultimately show ?thesis by (intro exI [of _ ?pre] exI [of _ ?post]) simp
qed

lemma seek_child_served:
  assumes "calls_succeed e fs dw" and "tickets e = xs @ [0]" and "\<forall>x \<in> set xs. x \<noteq> 0"
  shows "\<exists>tr. seek_child e fn fs dw = (Inl (Exit 0 []), tr)
     \<and> length (doseek_calls tr) = length xs
     \<and> ticket_reads tr = map Some (xs @ [0])
     \<and> tr \<noteq> [] \<and> last tr \<noteq> Sys_read_ticket None"
proof -
  have ok: "\<And>k. fst (seek_step (probes e k) fs dw k) = Inr ()"
    using assms(1) by (simp add: calls_succeed_def)
  have t: "tickets e = hd (xs @ [0]) # tl (xs @ [0])" using assms(2) by simp
  obtain pre post where p: "seek_child e fn fs dw =
      (case seek_loop (probes e) fs dw (hd (xs @ [0])) (tl (xs @ [0])) 0 [] of
         (Inl h, tr) \<Rightarrow> (Inl h, pre @ tr)
       | (Inr c, tr) \<Rightarrow> (Inl (Exit 0 []), pre @ tr @ post))"
    "doseek_calls pre = []" "ticket_reads pre = [Some (hd (xs @ [0]))]"
    "doseek_calls post = []" "ticket_reads post = []"
    "post \<noteq> []" "last post \<noteq> Sys_read_ticket None"
    using seek_child_on_tickets [OF assms(1) t, of fn] by blast
  obtain tr' where l: "seek_loop (probes e) fs dw (hd (xs @ [0])) (tl (xs @ [0])) 0 []
        = (Inr (0 + length xs), tr')"
    "length (doseek_calls tr') = length (doseek_calls []) + length xs"
    "ticket_reads tr' = ticket_reads [] @ map Some (tl (xs @ [0]))"
    using seek_loop_served [OF ok assms(3), of 0 "[]"] by blast
  have run: "seek_child e fn fs dw = (Inl (Exit 0 []), pre @ tr' @ post)"
    using p(1) l(1) by simp
  have "Some (hd (xs @ [0])) # map Some (tl (xs @ [0])) = map Some (xs @ [0])"
    by (metis hd_Cons_tl list.simps(9) snoc_eq_iff_butlast)
  then have "ticket_reads (pre @ tr' @ post) = map Some (xs @ [0])"
    using p l by (simp add: ticket_reads_append)
  moreover have "length (doseek_calls (pre @ tr' @ post)) = length xs"
    using p l by (simp add: doseek_calls_append)
  moreover have "last (pre @ tr' @ post) \<noteq> Sys_read_ticket None" using p(6,7) by simp
  ultimately show ?thesis using run p(6) by simp
qed

lemma seek_child_starved:
  assumes "calls_succeed e fs dw" and "tickets e = xs" and "\<forall>x \<in> set xs. x \<noteq> 0"
  shows "\<exists>h tr. seek_child e fn fs dw = (Inl h, tr) \<and> tr \<noteq> [] \<and> last tr = Sys_read_ticket None"
proof (cases xs)
  case Nil
  then show ?thesis using assms(1,2)
    by (simp add: seek_child_def calls_succeed_def newfile_def check_def read_ticket_def)
next
  case (Cons t ts)
  have ok: "\<And>k. fst (seek_step (probes e k) fs dw k) = Inr ()"
    using assms(1) by (simp add: calls_succeed_def)
  obtain pre post where p: "seek_child e fn fs dw =
      (case seek_loop (probes e) fs dw t ts 0 [] of
         (Inl h, tr) \<Rightarrow> (Inl h, pre @ tr)
       | (Inr c, tr) \<Rightarrow> (Inl (Exit 0 []), pre @ tr @ post))"
    using seek_child_on_tickets [OF assms(1), of t ts fn] assms(2) Cons by blast
  have ne: "xs \<noteq> []" using Cons by simp
  obtain tr' where l: "seek_loop (probes e) fs dw (hd xs) (tl xs) 0 []
        = (Inl (io_error ''read ticket''), tr')" "tr' \<noteq> []" "last tr' = Sys_read_ticket None"
    using seek_loop_starved [OF ok ne assms(3), of 0 "[]"] by blast
  have "seek_child e fn fs dw = (Inl (io_error ''read ticket''), pre @ tr')"
    using p l(1) Cons by simp
  then show ?thesis using l(2,3) by simp
qed

lemma stopped_shape:
  assumes "ts \<noteq> []" and "last ts = 0" and "stop_tickets ts = 1"
  shows "\<exists>xs. ts = xs @ [0] \<and> (\<forall>x \<in> set xs. x \<noteq> 0) \<and> perform_tickets ts = length xs"
proof -
  obtain xs where ts: "ts = xs @ [0]" using assms(1,2) by (metis append_butlast_last_id)
  then have "filter (\<lambda>b. b = 0) xs = []" using assms(3) by (simp add: stop_tickets_def)
  then have nz: "\<forall>x \<in> set xs. x \<noteq> 0" by (simp add: filter_empty_conv)
  then have "filter (\<lambda>b. b \<noteq> 0) ts = xs" unfolding ts by simp
  then show ?thesis using ts nz by (simp add: perform_tickets_def)
qed

text \<open>So a worker to which no call fails waits for a byte until it has read a 0.\<close>

lemma wants_ticket_iff:
  assumes "calls_succeed (wenv w) fs dw"
    and "0 \<in> set ts \<longrightarrow> ts \<noteq> [] \<and> last ts = 0 \<and> stop_tickets ts = 1"
  shows "wants_ticket wenv fn fs dw w ts = (0 \<notin> set ts)"
proof (cases "0 \<in> set ts")
  case True
  then obtain xs where xs: "ts = xs @ [0]" "\<forall>x \<in> set xs. x \<noteq> 0"
    using stopped_shape assms(2) by blast
  have c: "calls_succeed ((wenv w) \<lparr> tickets := ts \<rparr>) fs dw"
    using assms(1) by (simp add: calls_succeed_def)
  obtain tr where "seek_child ((wenv w) \<lparr> tickets := ts \<rparr>) fn fs dw = (Inl (Exit 0 []), tr)"
    "tr \<noteq> []" "last tr \<noteq> Sys_read_ticket None"
    using seek_child_served [OF c _ xs(2), of fn] xs(1) by auto
  then show ?thesis using True by (simp add: wants_ticket_def)
next
  case False
  then have nz: "\<forall>x \<in> set ts. x \<noteq> 0" by auto
  have c: "calls_succeed ((wenv w) \<lparr> tickets := ts \<rparr>) fs dw"
    using assms(1) by (simp add: calls_succeed_def)
  obtain h tr where "seek_child ((wenv w) \<lparr> tickets := ts \<rparr>) fn fs dw = (Inl h, tr)"
    "tr \<noteq> []" "last tr = Sys_read_ticket None"
    using seek_child_starved [OF c _ nz, of fn] by auto
  then show ?thesis using False by (simp add: wants_ticket_def)
qed

subsection \<open>The pipe, when no call of a worker fails\<close>

lemma pick_in_list: "xs \<noteq> [] \<Longrightarrow> xs ! (j mod length xs) \<in> set xs"
  by simp

lemma readers_member: "w \<in> set (readers rcv) \<longleftrightarrow> w < length rcv \<and> 0 \<notin> set (rcv ! w)"
  by (auto simp: readers_def)

lemma waiting_readers:
  assumes "\<forall>w < length rcv. calls_succeed (wenv w) fs dw" and "pipe_inv rcv"
  shows "filter (\<lambda>w. wants_ticket wenv fn fs dw w (rcv ! w)) [0 ..< length rcv] = readers rcv"
  unfolding readers_def
proof (rule filter_cong [OF refl])
  fix w assume "w \<in> set [0 ..< length rcv]"
  then have w: "w < length rcv" by simp
  show "wants_ticket wenv fn fs dw w (rcv ! w) = (0 \<notin> set (rcv ! w))"
    by (rule wants_ticket_iff) (use assms w in \<open>auto simp: pipe_inv_def\<close>)
qed

lemma readers_perform:
  assumes "w \<in> set (readers rcv)" and "b \<noteq> 0"
  shows "readers (rcv[w := rcv ! w @ [b]]) = readers rcv"
  unfolding readers_def using assms
  by (auto intro!: filter_cong simp: nth_list_update readers_member)

lemma pipe_inv_perform:
  assumes "pipe_inv rcv" and "w \<in> set (readers rcv)" and "b \<noteq> 0"
  shows "pipe_inv (rcv[w := rcv ! w @ [b]])"
  using assms unfolding pipe_inv_def
  by (auto simp: nth_list_update readers_member)

lemma pipe_inv_stop:
  assumes "pipe_inv rcv" and "w \<in> set (readers rcv)"
  shows "pipe_inv (rcv[w := rcv ! w @ [0]])"
  using assms unfolding pipe_inv_def
  by (auto simp: nth_list_update readers_member stop_tickets_def filter_empty_conv)

lemma length_filter_but_one:
  assumes "distinct xs" and "w \<in> set xs" and "P w"
  shows "length (filter (\<lambda>v. P v \<and> v \<noteq> w) xs) + 1 = length (filter P xs)"
proof -
  have "filter (\<lambda>v. P v \<and> v \<noteq> w) xs = removeAll w (filter P xs)"
    by (induction xs) auto
  also have "\<dots> = remove1 w (filter P xs)"
    using assms(1) by (simp add: distinct_remove1_removeAll)
  finally have "length (filter (\<lambda>v. P v \<and> v \<noteq> w) xs) = length (filter P xs) - 1"
    using assms(2,3) by (simp add: length_remove1)
  moreover have "0 < length (filter P xs)"
    using assms(2,3) by (auto simp: length_greater_0_conv filter_empty_conv)
  ultimately show ?thesis by simp
qed

lemma readers_stop:
  assumes "w \<in> set (readers rcv)"
  shows "length (readers (rcv[w := rcv ! w @ [0]])) + 1 = length (readers rcv)"
proof -
  have w: "w < length rcv" "0 \<notin> set (rcv ! w)" using assms by (simp_all add: readers_member)
  have a: "readers (rcv[w := rcv ! w @ [0]])
      = filter (\<lambda>v. 0 \<notin> set (rcv ! v) \<and> v \<noteq> w) [0 ..< length rcv]"
    unfolding readers_def using w by (auto intro!: filter_cong simp: nth_list_update)
  have b: "length (filter (\<lambda>v. 0 \<notin> set (rcv ! v) \<and> v \<noteq> w) [0 ..< length rcv]) + 1
      = length (filter (\<lambda>v. 0 \<notin> set (rcv ! v)) [0 ..< length rcv])"
    by (rule length_filter_but_one) (use w in simp_all)
  show ?thesis unfolding a unfolding readers_def using b by simp
qed

lemma perform_update:
  assumes "w < length rcv"
  shows "sum_list (map perform_tickets (rcv[w := rcv ! w @ [b]]))
     = sum_list (map perform_tickets rcv) + (if b = 0 then 0 else 1)"
proof -
  have "perform_tickets (rcv ! w @ [b]) = perform_tickets (rcv ! w) + (if b = 0 then 0 else 1)"
    by (simp add: perform_tickets_def)
  then show ?thesis
    using sum_list_map_update [OF assms, of perform_tickets "rcv ! w @ [b]"] by simp
qed

lemma deal_step:
  assumes "\<forall>w < length rcv. calls_succeed (wenv w) fs dw" and "pipe_inv rcv"
    and "readers rcv \<noteq> []"
  shows "deal (wants_ticket wenv fn fs dw) sched k (b # bs) rcv
    = deal (wants_ticket wenv fn fs dw) sched (k + 1) bs
        (rcv[readers rcv ! (sched k mod length (readers rcv))
               := rcv ! (readers rcv ! (sched k mod length (readers rcv))) @ [b]])"
  using assms(3) by (simp add: waiting_readers [OF assms(1,2)] Let_def)

lemma deal_ones:
  assumes "\<forall>w < n. calls_succeed (wenv w) fs dw"
  shows "pipe_inv rcv \<Longrightarrow> length rcv = n \<Longrightarrow> readers rcv \<noteq> [] \<Longrightarrow>
    \<exists>rcv2. deal (wants_ticket wenv fn fs dw) sched k (replicate m 1 @ zs) rcv
              = deal (wants_ticket wenv fn fs dw) sched (k + m) zs rcv2
      \<and> pipe_inv rcv2 \<and> length rcv2 = n \<and> readers rcv2 = readers rcv
      \<and> sum_list (map perform_tickets rcv2) = sum_list (map perform_tickets rcv) + m"
proof (induction m arbitrary: k rcv)
  case 0
  then have "deal (wants_ticket wenv fn fs dw) sched k (replicate 0 1 @ zs) rcv
              = deal (wants_ticket wenv fn fs dw) sched (k + 0) zs rcv
      \<and> pipe_inv rcv \<and> length rcv = n \<and> readers rcv = readers rcv
      \<and> sum_list (map perform_tickets rcv) = sum_list (map perform_tickets rcv) + 0" by simp
  then show ?case by blast
next
  case (Suc m)
  let ?w = "readers rcv ! (sched k mod length (readers rcv))"
  let ?rcv = "rcv[?w := rcv ! ?w @ [1]]"
  have ok: "\<forall>w < length rcv. calls_succeed (wenv w) fs dw" using assms Suc.prems(2) by simp
  have w: "?w \<in> set (readers rcv)" using Suc.prems(3) by simp
  then have wl: "?w < length rcv" by (simp add: readers_member)
  have inv: "pipe_inv ?rcv" using Suc.prems(1) w by (simp add: pipe_inv_perform)
  have rd: "readers ?rcv = readers rcv" using w by (simp add: readers_perform)
  have len: "length ?rcv = n" using Suc.prems(2) by simp
  have step: "deal (wants_ticket wenv fn fs dw) sched k (replicate (Suc m) 1 @ zs) rcv
      = deal (wants_ticket wenv fn fs dw) sched (k + 1) (replicate m 1 @ zs) ?rcv"
    using deal_step [OF ok Suc.prems(1,3), of fn sched k 1 "replicate m 1 @ zs"] by simp
  obtain rcv2 where r: "deal (wants_ticket wenv fn fs dw) sched (k + 1) (replicate m 1 @ zs) ?rcv
        = deal (wants_ticket wenv fn fs dw) sched (k + 1 + m) zs rcv2"
      "pipe_inv rcv2" "length rcv2 = n" "readers rcv2 = readers ?rcv"
      "sum_list (map perform_tickets rcv2) = sum_list (map perform_tickets ?rcv) + m"
    using Suc.IH [OF inv len, of "k + 1"] Suc.prems(3) rd by auto
  have "sum_list (map perform_tickets ?rcv) = sum_list (map perform_tickets rcv) + 1"
    using perform_update [OF wl, of 1] by simp
  then have "deal (wants_ticket wenv fn fs dw) sched k (replicate (Suc m) 1 @ zs) rcv
              = deal (wants_ticket wenv fn fs dw) sched (k + Suc m) zs rcv2
      \<and> pipe_inv rcv2 \<and> length rcv2 = n \<and> readers rcv2 = readers rcv
      \<and> sum_list (map perform_tickets rcv2) = sum_list (map perform_tickets rcv) + Suc m"
    using step r rd by (simp add: add.commute add.left_commute)
  then show ?case by blast
qed

lemma deal_zeros:
  assumes "\<forall>w < n. calls_succeed (wenv w) fs dw"
  shows "pipe_inv rcv \<Longrightarrow> length rcv = n \<Longrightarrow> length (readers rcv) = m \<Longrightarrow>
    \<exists>rcv2. deal (wants_ticket wenv fn fs dw) sched k (replicate m 0) rcv = (rcv2, [])
      \<and> pipe_inv rcv2 \<and> length rcv2 = n \<and> readers rcv2 = []
      \<and> sum_list (map perform_tickets rcv2) = sum_list (map perform_tickets rcv)"
proof (induction m arbitrary: k rcv)
  case 0
  then show ?case by simp
next
  case (Suc m)
  let ?w = "readers rcv ! (sched k mod length (readers rcv))"
  let ?rcv = "rcv[?w := rcv ! ?w @ [0]]"
  have ok: "\<forall>w < length rcv. calls_succeed (wenv w) fs dw" using assms Suc.prems(2) by simp
  have ne: "readers rcv \<noteq> []" using Suc.prems(3) by auto
  have w: "?w \<in> set (readers rcv)" using ne by simp
  then have wl: "?w < length rcv" by (simp add: readers_member)
  have inv: "pipe_inv ?rcv" using Suc.prems(1) w by (rule pipe_inv_stop)
  have rd: "length (readers ?rcv) = m" using readers_stop [OF w] Suc.prems(3) by simp
  have len: "length ?rcv = n" using Suc.prems(2) by simp
  have step: "deal (wants_ticket wenv fn fs dw) sched k (replicate (Suc m) 0) rcv
      = deal (wants_ticket wenv fn fs dw) sched (k + 1) (replicate m 0) ?rcv"
    using deal_step [OF ok Suc.prems(1) ne, of fn sched k 0 "replicate m 0"] by simp
  obtain rcv2 where r: "deal (wants_ticket wenv fn fs dw) sched (k + 1) (replicate m 0) ?rcv = (rcv2, [])"
      "pipe_inv rcv2" "length rcv2 = n" "readers rcv2 = []"
      "sum_list (map perform_tickets rcv2) = sum_list (map perform_tickets ?rcv)"
    using Suc.IH [OF inv len rd, of "k + 1"] by blast
  have "sum_list (map perform_tickets ?rcv) = sum_list (map perform_tickets rcv)"
    using perform_update [OF wl, of 0] by simp
  then have "deal (wants_ticket wenv fn fs dw) sched k (replicate (Suc m) 0) rcv = (rcv2, [])
      \<and> pipe_inv rcv2 \<and> length rcv2 = n \<and> readers rcv2 = []
      \<and> sum_list (map perform_tickets rcv2) = sum_list (map perform_tickets rcv)"
    using step r by simp
  then show ?case by blast
qed

text \<open>
  The whole run of the pipe on the ticket buffer: whatever the scheduler does, when no
  call of a worker fails the pipe is emptied; every worker has read exactly one 0, as its
  last byte, has read every byte it was given and no more, has probed once for each of
  its non-zero bytes and has ended with \<open>exit(0)\<close>; the probes of all workers together
  are \<open>Seeks\<close>.
\<close>

lemma pipe_run_tickets:
  assumes "\<forall>w < SeekProcCount. calls_succeed (wenv w) fs dw"
  shows "\<exists>rcv. pipe_run sched (replicate Seeks 1 @ replicate SeekProcCount 0) wenv fn fs dw = (rcv, [])
     \<and> length rcv = SeekProcCount
     \<and> (\<forall>w < SeekProcCount.
          fst (worker_run wenv fn fs dw rcv w) = Inl (Exit 0 [])
        \<and> ticket_reads (snd (worker_run wenv fn fs dw rcv w)) = map Some (rcv ! w)
        \<and> length (doseek_calls (snd (worker_run wenv fn fs dw rcv w))) = perform_tickets (rcv ! w)
        \<and> stop_tickets (rcv ! w) = 1 \<and> last (rcv ! w) = 0)
     \<and> sum_list (map perform_tickets rcv) = Seeks
     \<and> sum_list (map (\<lambda>w. length (doseek_calls (snd (worker_run wenv fn fs dw rcv w))))
          [0 ..< SeekProcCount]) = Seeks"
proof -
  let ?W = "wants_ticket wenv fn fs dw"
  let ?rcv0 = "replicate SeekProcCount ([] :: 8 word list)"
  have inv0: "pipe_inv ?rcv0" by (simp add: pipe_inv_def)
  have len0: "length ?rcv0 = SeekProcCount" by simp
  have rd0: "readers ?rcv0 = [0 ..< SeekProcCount]"
    by (simp add: readers_def filter_id_conv)
  have ne0: "readers ?rcv0 \<noteq> []" unfolding rd0 by (simp add: SeekProcCount_def)
  have sum0: "sum_list (map perform_tickets ?rcv0) = 0" by (simp add: perform_tickets_def)
  obtain rcv1 where r1:
      "deal ?W sched 0 (replicate Seeks 1 @ replicate SeekProcCount 0) ?rcv0
         = deal ?W sched (0 + Seeks) (replicate SeekProcCount 0) rcv1"
      "pipe_inv rcv1" "length rcv1 = SeekProcCount" "readers rcv1 = readers ?rcv0"
      "sum_list (map perform_tickets rcv1) = sum_list (map perform_tickets ?rcv0) + Seeks"
    using deal_ones [OF assms inv0 len0 ne0, of fn sched 0 Seeks "replicate SeekProcCount 0"]
    by blast
  have rd1: "length (readers rcv1) = SeekProcCount" using r1(4) rd0 by simp
  obtain rcv2 where r2:
      "deal ?W sched (0 + Seeks) (replicate SeekProcCount 0) rcv1 = (rcv2, [])"
      "pipe_inv rcv2" "length rcv2 = SeekProcCount" "readers rcv2 = []"
      "sum_list (map perform_tickets rcv2) = sum_list (map perform_tickets rcv1)"
    using deal_zeros [OF assms r1(2,3) rd1, of fn sched "0 + Seeks"] by blast
  have run: "pipe_run sched (replicate Seeks 1 @ replicate SeekProcCount 0) wenv fn fs dw = (rcv2, [])"
    using r1(1) r2(1) by (simp add: pipe_run_def)
  have total: "sum_list (map perform_tickets rcv2) = Seeks" using r1(5) r2(5) sum0 by simp
  have worker: "fst (worker_run wenv fn fs dw rcv2 w) = Inl (Exit 0 [])
        \<and> ticket_reads (snd (worker_run wenv fn fs dw rcv2 w)) = map Some (rcv2 ! w)
        \<and> length (doseek_calls (snd (worker_run wenv fn fs dw rcv2 w))) = perform_tickets (rcv2 ! w)
        \<and> stop_tickets (rcv2 ! w) = 1 \<and> last (rcv2 ! w) = 0"
    if w: "w < SeekProcCount" for w
  proof -
    have "w \<notin> set (readers rcv2)" using r2(4) by simp
    then have z: "0 \<in> set (rcv2 ! w)" using w r2(3) by (simp add: readers_member)
    then have s: "rcv2 ! w \<noteq> []" "last (rcv2 ! w) = 0" "stop_tickets (rcv2 ! w) = 1"
      using r2(2,3) w by (auto simp: pipe_inv_def)
    obtain xs where xs: "rcv2 ! w = xs @ [0]" "\<forall>x \<in> set xs. x \<noteq> 0"
      "perform_tickets (rcv2 ! w) = length xs"
      using stopped_shape [OF s] by blast
    have c: "calls_succeed ((wenv w) \<lparr> tickets := rcv2 ! w \<rparr>) fs dw"
      using assms w by (simp add: calls_succeed_def)
    obtain tr where "seek_child ((wenv w) \<lparr> tickets := rcv2 ! w \<rparr>) fn fs dw = (Inl (Exit 0 []), tr)"
      "length (doseek_calls tr) = length xs" "ticket_reads tr = map Some (xs @ [0])"
      using seek_child_served [OF c _ xs(2), of fn] xs(1) by auto
    then show ?thesis using xs s by (simp add: worker_run_def)
  qed
  have "map (\<lambda>w. length (doseek_calls (snd (worker_run wenv fn fs dw rcv2 w)))) [0 ..< SeekProcCount]
      = map (\<lambda>w. perform_tickets (rcv2 ! w)) [0 ..< length rcv2]"
    using worker r2(3) by simp
  also have "\<dots> = map perform_tickets rcv2"
    by (intro nth_equalityI) simp_all
  finally have probes: "sum_list (map (\<lambda>w. length (doseek_calls (snd (worker_run wenv fn fs dw rcv2 w))))
          [0 ..< SeekProcCount]) = Seeks"
    using total by simp
  show ?thesis using run r2(3) worker total probes by blast
qed

subsection \<open>The coordinator\<close>

lemma absorb_children [simp]: "children (absorb_report w nxt r st) = children st"
  by (simp add: absorb_report_def Let_def)

lemma absorb_cpu:
  "delta (absorb_report w nxt r st) w CPU = delta st w CPU + r CPU"
  by (simp add: absorb_report_def Let_def)

lemma absorb_other:
  "(t, i) \<noteq> (w, CPU) \<Longrightarrow> delta (absorb_report w nxt r st) t i = delta st t i"
  by (auto simp: absorb_report_def Let_def)

lemma absorb_first:
  "first_start (absorb_report w 0 r st) = r StartTime"
  "last_stop (absorb_report w 0 r st) = r EndTime"
  by (simp_all add: absorb_report_def Let_def)

lemma absorb_later:
  "0 < nxt \<Longrightarrow> first_start (absorb_report w nxt r st) = min (first_start st) (r StartTime)"
  "0 < nxt \<Longrightarrow> last_stop (absorb_report w nxt r st) = max (last_stop st) (r EndTime)"
  by (auto simp: absorb_report_def Let_def min_def max_def)

lemma collect_loop_done:
  "\<not> nxt < SeekProcCount \<Longrightarrow> collect_loop env w nxt st tr = (Inr st, tr)"
  by (subst collect_loop.simps) simp

lemma collect_loop_step:
  assumes "nxt < SeekProcCount" and "collect_loop env w nxt st tr = (Inr st', tr')"
  shows "\<exists>j. report_read_res env nxt = 24 \<and> children st \<noteq> [] \<and> wait_pick env nxt = Some j
    \<and> collect_loop env w (nxt + 1)
         ((absorb_report w nxt (report_read_buf env nxt) st)
            \<lparr> children := remove1 (children st ! (j mod length (children st))) (children st) \<rparr>)
         (tr @ [Sys_read_report 24, Sys_wait (children st ! (j mod length (children st)))])
       = (Inr st', tr')"
  using assms(2)
  by (subst (asm) collect_loop.simps)
    (auto simp: assms(1) Let_def split: if_splits option.splits)


lemma collect_loop_agg:
  assumes "collect_loop env w nxt st tr = (Inr st', tr')" and "0 < nxt"
  shows "delta st' w CPU
           = delta st w CPU + sum_list (map (\<lambda>k. report_read_buf env k CPU) [nxt ..< SeekProcCount])
    \<and> first_start st'
           = fold min (map (\<lambda>k. report_read_buf env k StartTime) [nxt ..< SeekProcCount]) (first_start st)
    \<and> last_stop st'
           = fold max (map (\<lambda>k. report_read_buf env k EndTime) [nxt ..< SeekProcCount]) (last_stop st)
    \<and> (\<forall>t i. (t, i) \<noteq> (w, CPU) \<longrightarrow> delta st' t i = delta st t i)"
  using assms
proof (induction "SeekProcCount - nxt" arbitrary: nxt st tr)
  case 0
  then have "\<not> nxt < SeekProcCount" by simp
  then have st: "st' = st" using "0.prems"(1) by (simp add: collect_loop_done)
  have e: "[nxt ..< SeekProcCount] = []" using 0 by simp
  show ?case unfolding st e by simp
next
  case (Suc k)
  then have lt: "nxt < SeekProcCount" by simp
  let ?r = "report_read_buf env nxt"
  obtain j where j: "collect_loop env w (nxt + 1)
         ((absorb_report w nxt ?r st)
            \<lparr> children := remove1 (children st ! (j mod length (children st))) (children st) \<rparr>)
         (tr @ [Sys_read_report 24, Sys_wait (children st ! (j mod length (children st)))])
       = (Inr st', tr')"
    using collect_loop_step [OF lt Suc.prems(1)] by blast
  let ?st = "(absorb_report w nxt ?r st)
            \<lparr> children := remove1 (children st ! (j mod length (children st))) (children st) \<rparr>"
  have k: "k = SeekProcCount - (nxt + 1)" using Suc.hyps(2) by simp
  note IH = Suc.hyps(1) [OF k j]
  have upt: "[nxt ..< SeekProcCount] = nxt # [nxt + 1 ..< SeekProcCount]"
    using lt by (simp add: upt_conv_Cons)
  have c: "delta ?st w CPU = delta st w CPU + ?r CPU" by (simp add: absorb_cpu)
  have f: "first_start ?st = min (?r StartTime) (first_start st)"
    using Suc.prems(2) by (simp add: absorb_later min.commute)
  have l: "last_stop ?st = max (?r EndTime) (last_stop st)"
    using Suc.prems(2) by (simp add: absorb_later max.commute)
  have o: "(t, i) \<noteq> (w, CPU) \<Longrightarrow> delta ?st t i = delta st t i" for t i
    using absorb_other [of t i w nxt ?r st] by simp
  show ?case using IH c f l o unfolding upt by simp
qed

lemma collect_loop_events:
  assumes "collect_loop env w nxt st tr = (Inr st', tr')"
  shows "length (children st') + (SeekProcCount - nxt) = length (children st)
    \<and> filter is_report_read tr'
         = filter is_report_read tr @ replicate (SeekProcCount - nxt) (Sys_read_report 24)
    \<and> length (filter is_wait tr') = length (filter is_wait tr) + (SeekProcCount - nxt)
    \<and> filter is_fork tr' = filter is_fork tr
    \<and> filter is_ticket_write tr' = filter is_ticket_write tr"
  using assms
proof (induction "SeekProcCount - nxt" arbitrary: nxt st tr)
  case 0
  then have "\<not> nxt < SeekProcCount" by simp
  then have "st' = st" "tr' = tr" using "0.prems"(1) by (simp_all add: collect_loop_done)
  then show ?case using 0 by simp
next
  case (Suc k)
  then have lt: "nxt < SeekProcCount" by simp
  let ?r = "report_read_buf env nxt"
  obtain j where ne: "children st \<noteq> []" and j: "collect_loop env w (nxt + 1)
         ((absorb_report w nxt ?r st)
            \<lparr> children := remove1 (children st ! (j mod length (children st))) (children st) \<rparr>)
         (tr @ [Sys_read_report 24, Sys_wait (children st ! (j mod length (children st)))])
       = (Inr st', tr')"
    using collect_loop_step [OF lt Suc.prems(1)] by blast
  have k: "k = SeekProcCount - (nxt + 1)" using Suc.hyps(2) by simp
  note IH = Suc.hyps(1) [OF k j]
  have mem: "children st ! (j mod length (children st)) \<in> set (children st)" using ne by simp
  have len: "length (remove1 (children st ! (j mod length (children st))) (children st)) + 1
      = length (children st)"
    using mem ne by (simp add: length_remove1)
  have rep: "Sys_read_report 24 # replicate (SeekProcCount - (nxt + 1)) (Sys_read_report 24)
      = replicate (SeekProcCount - nxt) (Sys_read_report 24)"
    using lt by (simp add: Suc_diff_Suc flip: replicate_Suc)
  have ih1: "length (children st') + (SeekProcCount - (nxt + 1))
      = length (remove1 (children st ! (j mod length (children st))) (children st))"
    using IH by simp
  have a: "length (children st') + (SeekProcCount - nxt) = length (children st)"
    using ih1 len lt by linarith
  have b: "filter is_report_read tr'
         = filter is_report_read tr @ replicate (SeekProcCount - nxt) (Sys_read_report 24)"
    using IH rep by simp
  have ih3: "length (filter is_wait tr')
      = length (filter is_wait tr) + 1 + (SeekProcCount - (nxt + 1))"
    using IH by simp
  have c: "length (filter is_wait tr') = length (filter is_wait tr) + (SeekProcCount - nxt)"
    using ih3 lt by linarith
  have d: "filter is_fork tr' = filter is_fork tr"
    and e: "filter is_ticket_write tr' = filter is_ticket_write tr"
    using IH by simp_all
  show ?case using a b c d e by simp
qed


lemma fork_loop_done:
  "\<not> nxt < SeekProcCount \<Longrightarrow> fork_loop env fn fs dw nxt chn tr = (Inr chn, tr)"
  by (subst fork_loop.simps) simp

lemma fork_loop_step:
  assumes "nxt < SeekProcCount" and "fork_loop env fn fs dw nxt chn tr = (Inr chn', tr')"
  shows "fork_res env nxt \<noteq> - 1 \<and> fork_res env nxt \<noteq> 0
    \<and> fork_loop env fn fs dw (nxt + 1) (chn @ [fork_res env nxt]) (tr @ [Sys_fork (fork_res env nxt)])
        = (Inr chn', tr')"
  using assms(2)
  by (subst (asm) fork_loop.simps)
    (auto simp: assms(1) Let_def split: if_splits prod.splits)

lemma fork_loop_events:
  assumes "fork_loop env fn fs dw nxt chn tr = (Inr chn', tr')"
  shows "chn' = chn @ map (fork_res env) [nxt ..< SeekProcCount]
    \<and> filter is_fork tr' = filter is_fork tr @ map (\<lambda>k. Sys_fork (fork_res env k)) [nxt ..< SeekProcCount]
    \<and> filter is_report_read tr' = filter is_report_read tr
    \<and> filter is_wait tr' = filter is_wait tr
    \<and> filter is_ticket_write tr' = filter is_ticket_write tr"
  using assms
proof (induction "SeekProcCount - nxt" arbitrary: nxt chn tr)
  case 0
  then have "\<not> nxt < SeekProcCount" by simp
  then have st: "chn' = chn" "tr' = tr" using "0.prems"(1) by (simp_all add: fork_loop_done)
  have e: "[nxt ..< SeekProcCount] = []" using 0 by simp
  show ?case unfolding st e by simp
next
  case (Suc k)
  then have lt: "nxt < SeekProcCount" by simp
  have j: "fork_loop env fn fs dw (nxt + 1) (chn @ [fork_res env nxt])
      (tr @ [Sys_fork (fork_res env nxt)]) = (Inr chn', tr')"
    using fork_loop_step [OF lt Suc.prems(1)] by blast
  have k: "k = SeekProcCount - (nxt + 1)" using Suc.hyps(2) by simp
  note IH = Suc.hyps(1) [OF k j]
  have upt: "[nxt ..< SeekProcCount] = nxt # [nxt + 1 ..< SeekProcCount]"
    using lt by (simp add: upt_conv_Cons)
  show ?case using IH unfolding upt by simp
qed

lemma do_seekstuff_returns:
  assumes "do_seekstuff env fn fs a dw w st = (Inr st', tr)"
  shows "\<exists>chn tr2 st2.
      fork_loop env fn fs dw 0 (children st)
        [Sys_system ''dropthedamncaches'', Sys_pipe (pipe_feedback_res env),
         Sys_pipe (pipe_control_res env)] = (Inr chn, tr2)
    \<and> write_tickets_res env = int sizeof_seek_tickets
    \<and> collect_loop env w 0 (st \<lparr> first_start := 0, last_stop := 0, children := chn \<rparr>)
          (tr2 @ [Sys_write_tickets (ticket_bytes a) (int sizeof_seek_tickets)]) = (Inr st2, tr)
    \<and> st' = st2 \<lparr> delta := (delta st2)
                  (w := (delta st2 w) (Elapsed := last_stop st2 - first_start st2)) \<rparr>"
  using assms unfolding do_seekstuff_def Let_def
  by (auto split: if_splits prod.splits sum.splits)

lemma SeekProcCount_pos: "0 < SeekProcCount"
  by (simp add: SeekProcCount_def)

lemma do_seekstuff_result:
  assumes "do_seekstuff env fn fs a dw w st = (Inr st', tr)"
  shows "delta st' w CPU
           = delta st w CPU + sum_list (map (\<lambda>k. report_read_buf env k CPU) [0 ..< SeekProcCount])"
    and "delta st' w Elapsed
           = Max ((\<lambda>k. report_read_buf env k EndTime) ` {0 ..< SeekProcCount})
             - Min ((\<lambda>k. report_read_buf env k StartTime) ` {0 ..< SeekProcCount})"
proof -
  obtain chn tr2 st2 where
    c: "collect_loop env w 0 (st \<lparr> first_start := 0, last_stop := 0, children := chn \<rparr>)
          (tr2 @ [Sys_write_tickets (ticket_bytes a) (int sizeof_seek_tickets)]) = (Inr st2, tr)"
    and st': "st' = st2 \<lparr> delta := (delta st2)
                  (w := (delta st2 w) (Elapsed := last_stop st2 - first_start st2)) \<rparr>"
    using do_seekstuff_returns [OF assms] by blast
  let ?st0 = "st \<lparr> first_start := 0, last_stop := 0, children := chn \<rparr>"
  let ?r = "report_read_buf env"
  obtain j where j: "collect_loop env w (0 + 1)
         ((absorb_report w 0 (?r 0) ?st0)
            \<lparr> children := remove1 (children ?st0 ! (j mod length (children ?st0))) (children ?st0) \<rparr>)
         ((tr2 @ [Sys_write_tickets (ticket_bytes a) (int sizeof_seek_tickets)])
            @ [Sys_read_report 24, Sys_wait (children ?st0 ! (j mod length (children ?st0)))])
       = (Inr st2, tr)"
    using collect_loop_step [OF SeekProcCount_pos c] by blast
  let ?st1 = "(absorb_report w 0 (?r 0) ?st0)
            \<lparr> children := remove1 (children ?st0 ! (j mod length (children ?st0))) (children ?st0) \<rparr>"
  note agg = collect_loop_agg [OF j]
  have upt: "[0 ..< SeekProcCount] = 0 # [0 + 1 ..< SeekProcCount]"
    using SeekProcCount_pos by (simp add: upt_conv_Cons)
  have cpu1: "delta ?st1 w CPU = delta st w CPU + ?r 0 CPU" by (simp add: absorb_cpu)
  have "delta st2 w CPU = delta st w CPU + sum_list (map (\<lambda>k. ?r k CPU) [0 ..< SeekProcCount])"
    using agg cpu1 unfolding upt by simp
  moreover have "CPU \<noteq> Elapsed" by (simp add: CPU_def Elapsed_def)
  ultimately show "delta st' w CPU
      = delta st w CPU + sum_list (map (\<lambda>k. ?r k CPU) [0 ..< SeekProcCount])"
    using st' by simp
  have set: "{0 ..< SeekProcCount} = set (0 # [0 + 1 ..< SeekProcCount])"
    using upt by (metis atLeastLessThan_upt)
  have "first_start st2 = fold min (map (\<lambda>k. ?r k StartTime) [0 + 1 ..< SeekProcCount]) (?r 0 StartTime)"
    using agg by (simp add: absorb_first)
  also have "\<dots> = Min (set (?r 0 StartTime # map (\<lambda>k. ?r k StartTime) [0 + 1 ..< SeekProcCount]))"
    by (simp only: Min.set_eq_fold)
  also have "\<dots> = Min ((\<lambda>k. ?r k StartTime) ` {0 ..< SeekProcCount})"
    unfolding set by simp
  finally have f: "first_start st2 = Min ((\<lambda>k. ?r k StartTime) ` {0 ..< SeekProcCount})" .
  have "last_stop st2 = fold max (map (\<lambda>k. ?r k EndTime) [0 + 1 ..< SeekProcCount]) (?r 0 EndTime)"
    using agg by (simp add: absorb_first)
  also have "\<dots> = Max (set (?r 0 EndTime # map (\<lambda>k. ?r k EndTime) [0 + 1 ..< SeekProcCount]))"
    by (simp only: Max.set_eq_fold)
  also have "\<dots> = Max ((\<lambda>k. ?r k EndTime) ` {0 ..< SeekProcCount})"
    unfolding set by simp
  finally have l: "last_stop st2 = Max ((\<lambda>k. ?r k EndTime) ` {0 ..< SeekProcCount})" .
  show "delta st' w Elapsed
           = Max ((\<lambda>k. ?r k EndTime) ` {0 ..< SeekProcCount})
             - Min ((\<lambda>k. ?r k StartTime) ` {0 ..< SeekProcCount})"
    using st' f l by simp
qed

lemma upt_3: "[0 ..< 3] = [0, 1, 2]"
  by (simp add: upt_rec)

lemma quiet_seek_returns:
  "\<exists>st' tr. do_seekstuff quiet_seek_env fn fs a dw w seek_state0 = (Inr st', tr)"
  by (simp add: do_seekstuff_def quiet_seek_env_def seek_state0_def fork_loop.simps
      collect_loop.simps SeekProcCount_def sizeof_seek_tickets_def Seeks_def Let_def)

text \<open>
  Claim C3. When \<open>do_seekstuff\<close> returns and every report read has its end time at
  least its start time, the elapsed figure of the phase is at least 0 and at least the
  span \<open>end - start\<close> of every report.
\<close>

theorem elapsed_covers_spans:
  assumes "do_seekstuff env fn fs a dw w st = (Inr st', tr)"
      and "\<forall>k < SeekProcCount. report_read_buf env k StartTime \<le> report_read_buf env k EndTime"
  shows "0 \<le> delta st' w Elapsed
     \<and> (\<forall>k < SeekProcCount.
          report_read_buf env k EndTime - report_read_buf env k StartTime \<le> delta st' w Elapsed)"
proof -
  let ?E = "(\<lambda>k. report_read_buf env k EndTime) ` {0 ..< SeekProcCount}"
  let ?S = "(\<lambda>k. report_read_buf env k StartTime) ` {0 ..< SeekProcCount}"
  have el: "delta st' w Elapsed = Max ?E - Min ?S" using do_seekstuff_result(2) [OF assms(1)] .
  have span: "report_read_buf env k EndTime - report_read_buf env k StartTime \<le> Max ?E - Min ?S"
    if "k < SeekProcCount" for k
  proof -
    have "report_read_buf env k EndTime \<le> Max ?E" using that by (intro Max_ge) auto
    moreover have "Min ?S \<le> report_read_buf env k StartTime" using that by (intro Min_le) auto
    ultimately show ?thesis by linarith
  qed
  have "0 \<le> report_read_buf env 0 EndTime - report_read_buf env 0 StartTime"
    using assms(2) SeekProcCount_pos by simp
  then have "0 \<le> Max ?E - Min ?S" using span [OF SeekProcCount_pos] by linarith
  then show ?thesis using span el by simp
qed

theorem elapsed_covers_spans_witness:
  "\<exists>st' tr. do_seekstuff quiet_seek_env ''./bonnie.1'' 1073741824 (\<lambda>i. 0) 0 Lseek seek_state0
        = (Inr st', tr)
     \<and> report_read_buf quiet_seek_env 1 StartTime = 1 \<and> report_read_buf quiet_seek_env 1 EndTime = 8
     \<and> 8 - 1 \<le> delta st' Lseek Elapsed \<and> 0 \<le> delta st' Lseek Elapsed"
proof -
  obtain st' tr where run:
    "do_seekstuff quiet_seek_env ''./bonnie.1'' 1073741824 (\<lambda>i. 0) 0 Lseek seek_state0 = (Inr st', tr)"
    using quiet_seek_returns by blast
  have ord: "\<forall>k < SeekProcCount.
      report_read_buf quiet_seek_env k StartTime \<le> report_read_buf quiet_seek_env k EndTime"
    by (simp add: quiet_seek_env_def SeekProcCount_def StartTime_def EndTime_def
        less_Suc_eq numeral_3_eq_3)
  have v: "report_read_buf quiet_seek_env 1 StartTime = 1"
    "report_read_buf quiet_seek_env 1 EndTime = 8"
    by (simp_all add: quiet_seek_env_def StartTime_def EndTime_def)
  have "1 < SeekProcCount" by (simp add: SeekProcCount_def)
  then have "8 - 1 \<le> delta st' Lseek Elapsed \<and> 0 \<le> delta st' Lseek Elapsed"
    using elapsed_covers_spans [OF run ord] v by auto
  then show ?thesis using run v by blast
qed

text \<open>
  Claim C8. When \<open>do_seekstuff\<close> returns (no child left to wait for at the call), it has
  forked \<open>SeekProcCount\<close> workers, read exactly \<open>SeekProcCount\<close> reports from the report
  pipe, each one complete (24 bytes, \<open>sizeof(seeker_report)\<close>), and waited
  \<open>SeekProcCount\<close> times with success: no child is left to wait for.
\<close>

theorem all_reports_collected:
  assumes "do_seekstuff env fn fs a dw w st = (Inr st', tr)" and "children st = []"
  shows "filter is_report_read tr = replicate SeekProcCount (Sys_read_report 24)
     \<and> filter is_fork tr = map (\<lambda>k. Sys_fork (fork_res env k)) [0 ..< SeekProcCount]
     \<and> length (filter is_wait tr) = SeekProcCount
     \<and> children st' = []"
proof -
  obtain chn tr2 st2 where
    f: "fork_loop env fn fs dw 0 (children st)
        [Sys_system ''dropthedamncaches'', Sys_pipe (pipe_feedback_res env),
         Sys_pipe (pipe_control_res env)] = (Inr chn, tr2)"
    and c: "collect_loop env w 0 (st \<lparr> first_start := 0, last_stop := 0, children := chn \<rparr>)
          (tr2 @ [Sys_write_tickets (ticket_bytes a) (int sizeof_seek_tickets)]) = (Inr st2, tr)"
    and st': "st' = st2 \<lparr> delta := (delta st2)
                  (w := (delta st2 w) (Elapsed := last_stop st2 - first_start st2)) \<rparr>"
    using do_seekstuff_returns [OF assms(1)] by blast
  note fe = fork_loop_events [OF f]
  note ce = collect_loop_events [OF c]
  have "length chn = SeekProcCount" using fe assms(2) by simp
  then have "children st2 = []" using ce by simp
  then show ?thesis using fe ce st' by simp
qed

theorem all_reports_collected_witness:
  "\<exists>st' tr. do_seekstuff quiet_seek_env ''./bonnie.1'' 1073741824 (\<lambda>i. 0) 0 Lseek seek_state0
        = (Inr st', tr)
     \<and> children seek_state0 = []
     \<and> filter is_report_read tr = [Sys_read_report 24, Sys_read_report 24, Sys_read_report 24]
     \<and> filter is_fork tr = [Sys_fork 100, Sys_fork 101, Sys_fork 102]
     \<and> length (filter is_wait tr) = 3 \<and> children st' = []"
proof -
  obtain st' tr where run:
    "do_seekstuff quiet_seek_env ''./bonnie.1'' 1073741824 (\<lambda>i. 0) 0 Lseek seek_state0 = (Inr st', tr)"
    using quiet_seek_returns by blast
  have z: "children seek_state0 = []" by (simp add: seek_state0_def)
  have "filter is_report_read tr = [Sys_read_report 24, Sys_read_report 24, Sys_read_report 24]
     \<and> filter is_fork tr = [Sys_fork 100, Sys_fork 101, Sys_fork 102]
     \<and> length (filter is_wait tr) = 3 \<and> children st' = []"
    using all_reports_collected [OF run z]
    by (simp add: quiet_seek_env_def SeekProcCount_def upt_3 numeral_3_eq_3)
  then show ?thesis using run z by blast
qed

text \<open>
  Claim C1. In every run of \<open>do_seekstuff\<close> that returns, the ticket buffer has exactly
  \<open>Seeks + SeekProcCount\<close> bytes, the first \<open>Seeks\<close> of value 1 and the last
  \<open>SeekProcCount\<close> of value 0 (whatever the array held before), and it is written to the
  control pipe by one \<open>write\<close> of the whole buffer, which returns its full length.
  These bytes are consumed by the worker processes as follows, whatever the order in which
  their reads on the pipe are served (\<open>sched\<close>) and whatever the system answers them
  (\<open>wenv\<close>), as long as it answers no failure: the pipe is emptied; every worker runs its
  code to \<open>exit(0)\<close>, having read exactly the bytes it was served, the last of them its
  only 0, and having called \<open>doseek\<close> once for each of its non-zero bytes; and the calls
  of \<open>doseek\<close> of all workers together are exactly \<open>Seeks\<close>.
\<close>

theorem tickets_exact:
  assumes "do_seekstuff env fn fs a dw w st = (Inr st', tr)"
  shows "ticket_bytes a = replicate Seeks 1 @ replicate SeekProcCount 0
     \<and> length (ticket_bytes a) = Seeks + SeekProcCount
     \<and> filter is_ticket_write tr
          = [Sys_write_tickets (replicate Seeks 1 @ replicate SeekProcCount 0)
               (int (Seeks + SeekProcCount))]
     \<and> (\<forall>sched wenv. (\<forall>v < SeekProcCount. calls_succeed (wenv v) fs dw) \<longrightarrow>
          (\<exists>rcv. pipe_run sched (ticket_bytes a) wenv fn fs dw = (rcv, [])
             \<and> length rcv = SeekProcCount
             \<and> (\<forall>v < SeekProcCount.
                  fst (worker_run wenv fn fs dw rcv v) = Inl (Exit 0 [])
                \<and> ticket_reads (snd (worker_run wenv fn fs dw rcv v)) = map Some (rcv ! v)
                \<and> length (doseek_calls (snd (worker_run wenv fn fs dw rcv v)))
                     = perform_tickets (rcv ! v)
                \<and> stop_tickets (rcv ! v) = 1 \<and> last (rcv ! v) = 0)
             \<and> sum_list (map perform_tickets rcv) = Seeks
             \<and> sum_list (map (\<lambda>v. length (doseek_calls (snd (worker_run wenv fn fs dw rcv v))))
                  [0 ..< SeekProcCount]) = Seeks))"
proof -
  obtain chn tr2 st2 where
    f: "fork_loop env fn fs dw 0 (children st)
        [Sys_system ''dropthedamncaches'', Sys_pipe (pipe_feedback_res env),
         Sys_pipe (pipe_control_res env)] = (Inr chn, tr2)"
    and c: "collect_loop env w 0 (st \<lparr> first_start := 0, last_stop := 0, children := chn \<rparr>)
          (tr2 @ [Sys_write_tickets (ticket_bytes a) (int sizeof_seek_tickets)]) = (Inr st2, tr)"
    using do_seekstuff_returns [OF assms(1)] by blast
  note fe = fork_loop_events [OF f]
  note ce = collect_loop_events [OF c]
  have wr: "filter is_ticket_write tr
      = [Sys_write_tickets (replicate Seeks 1 @ replicate SeekProcCount 0) (int (Seeks + SeekProcCount))]"
    using fe ce by (simp add: ticket_bytes_eq sizeof_seek_tickets_def)
  have l: "length (ticket_bytes a) = Seeks + SeekProcCount" by (simp add: ticket_bytes_eq)
  have p: "\<forall>sched wenv. (\<forall>v < SeekProcCount. calls_succeed (wenv v) fs dw) \<longrightarrow>
          (\<exists>rcv. pipe_run sched (ticket_bytes a) wenv fn fs dw = (rcv, [])
             \<and> length rcv = SeekProcCount
             \<and> (\<forall>v < SeekProcCount.
                  fst (worker_run wenv fn fs dw rcv v) = Inl (Exit 0 [])
                \<and> ticket_reads (snd (worker_run wenv fn fs dw rcv v)) = map Some (rcv ! v)
                \<and> length (doseek_calls (snd (worker_run wenv fn fs dw rcv v)))
                     = perform_tickets (rcv ! v)
                \<and> stop_tickets (rcv ! v) = 1 \<and> last (rcv ! v) = 0)
             \<and> sum_list (map perform_tickets rcv) = Seeks
             \<and> sum_list (map (\<lambda>v. length (doseek_calls (snd (worker_run wenv fn fs dw rcv v))))
                  [0 ..< SeekProcCount]) = Seeks)"
    unfolding ticket_bytes_eq using pipe_run_tickets by blast
  show ?thesis using wr l p ticket_bytes_eq [of a] by blast
qed

lemma quiet_worker_succeeds: "calls_succeed quiet_worker 1073741824 0"
  by (simp add: calls_succeed_def quiet_worker_def seek_step_def seek_offset_0 quiet_probe_def
      doseek_def probe_of_def Chunk_def)

theorem tickets_exact_witness:
  "\<exists>st' tr. do_seekstuff quiet_seek_env ''./bonnie.1'' 1073741824 (\<lambda>i. 7) 0 Lseek seek_state0
        = (Inr st', tr)
     \<and> ticket_bytes (\<lambda>i. 7) = replicate 100000 1 @ replicate 3 0
     \<and> filter is_ticket_write tr = [Sys_write_tickets (replicate 100000 1 @ replicate 3 0) 100003]
     \<and> (\<forall>v < SeekProcCount. calls_succeed quiet_worker 1073741824 0)
     \<and> (\<exists>rcv. pipe_run (\<lambda>k. k) (ticket_bytes (\<lambda>i. 7)) (\<lambda>v. quiet_worker)
                 ''./bonnie.1'' 1073741824 0 = (rcv, [])
           \<and> length rcv = 3
           \<and> (\<forall>v < 3. fst (worker_run (\<lambda>v. quiet_worker) ''./bonnie.1'' 1073741824 0 rcv v)
                         = Inl (Exit 0 []))
           \<and> sum_list (map (\<lambda>v. length (doseek_calls
                  (snd (worker_run (\<lambda>v. quiet_worker) ''./bonnie.1'' 1073741824 0 rcv v))))
                [0 ..< 3]) = 100000)"
proof -
  obtain st' tr where run:
    "do_seekstuff quiet_seek_env ''./bonnie.1'' 1073741824 (\<lambda>i. 7) 0 Lseek seek_state0 = (Inr st', tr)"
    using quiet_seek_returns by blast
  note t = tickets_exact [OF run]
  have a: "ticket_bytes (\<lambda>i. 7) = replicate 100000 1 @ replicate 3 0"
    using t by (simp add: Seeks_def SeekProcCount_def)
  have b: "filter is_ticket_write tr = [Sys_write_tickets (replicate 100000 1 @ replicate 3 0) 100003]"
    using t by (simp add: Seeks_def SeekProcCount_def)
  have q: "\<forall>v < SeekProcCount. calls_succeed quiet_worker 1073741824 0"
    by (simp add: quiet_worker_succeeds)
  note p = t [THEN conjunct2, THEN conjunct2, THEN conjunct2, rule_format,
      where wenv = "\<lambda>v. quiet_worker" and sched = "\<lambda>k. k", OF quiet_worker_succeeds]
  from p obtain rcv where r:
    "pipe_run (\<lambda>k. k) (ticket_bytes (\<lambda>i. 7)) (\<lambda>v. quiet_worker) ''./bonnie.1'' 1073741824 0
       = (rcv, [])
     \<and> length rcv = SeekProcCount
     \<and> (\<forall>v < SeekProcCount.
           fst (worker_run (\<lambda>v. quiet_worker) ''./bonnie.1'' 1073741824 0 rcv v) = Inl (Exit 0 [])
         \<and> ticket_reads (snd (worker_run (\<lambda>v. quiet_worker) ''./bonnie.1'' 1073741824 0 rcv v))
              = map Some (rcv ! v)
         \<and> length (doseek_calls (snd (worker_run (\<lambda>v. quiet_worker) ''./bonnie.1'' 1073741824 0 rcv v)))
              = perform_tickets (rcv ! v)
         \<and> stop_tickets (rcv ! v) = 1 \<and> last (rcv ! v) = 0)
     \<and> sum_list (map perform_tickets rcv) = Seeks
     \<and> sum_list (map (\<lambda>v. length (doseek_calls
                  (snd (worker_run (\<lambda>v. quiet_worker) ''./bonnie.1'' 1073741824 0 rcv v))))
                [0 ..< SeekProcCount]) = Seeks" ..
  have r1: "pipe_run (\<lambda>k. k) (ticket_bytes (\<lambda>i. 7)) (\<lambda>v. quiet_worker) ''./bonnie.1'' 1073741824 0
       = (rcv, [])" using r by (rule conjunct1)
  have r2: "length rcv = 3"
    using r [THEN conjunct2, THEN conjunct1] by (simp add: SeekProcCount_def)
  have r3: "\<forall>v < 3. fst (worker_run (\<lambda>v. quiet_worker) ''./bonnie.1'' 1073741824 0 rcv v)
                         = Inl (Exit 0 [])"
    using r [THEN conjunct2, THEN conjunct2, THEN conjunct1] by (simp add: SeekProcCount_def)
  have r4: "sum_list (map (\<lambda>v. length (doseek_calls
                  (snd (worker_run (\<lambda>v. quiet_worker) ''./bonnie.1'' 1073741824 0 rcv v))))
                [0 ..< 3]) = 100000"
    using r [THEN conjunct2, THEN conjunct2, THEN conjunct2, THEN conjunct2]
    by (simp only: Seeks_def SeekProcCount_def)
  have c: "\<exists>rcv. pipe_run (\<lambda>k. k) (ticket_bytes (\<lambda>i. 7)) (\<lambda>v. quiet_worker)
                 ''./bonnie.1'' 1073741824 0 = (rcv, [])
           \<and> length rcv = 3
           \<and> (\<forall>v < 3. fst (worker_run (\<lambda>v. quiet_worker) ''./bonnie.1'' 1073741824 0 rcv v)
                         = Inl (Exit 0 []))
           \<and> sum_list (map (\<lambda>v. length (doseek_calls
                  (snd (worker_run (\<lambda>v. quiet_worker) ''./bonnie.1'' 1073741824 0 rcv v))))
                [0 ..< 3]) = 100000"
    using r1 r2 r3 r4 by (intro exI [of _ rcv] conjI)
  show ?thesis using run a b q c by (intro exI [of _ st'] exI [of _ tr] conjI)
qed

subsection \<open>The command line\<close>

text \<open>
  Claim C7 fails on the code. The loop over \<open>argv\<close> runs while \<open>next < argc - 1\<close>, so
  the last argument is never looked at: \<open>bonnie -x\<close> prints no usage message and goes on
  with the defaults (24 GiB). The argument after an option is skipped too, also after
  \<open>-r\<close>, which takes no value. An unknown flag at a position the loop looks at, and a
  size below 1, do end in \<open>usage\<close>.
\<close>

theorem unknown_last_flag_accepted:
  "main_args [''bonnie'', ''-x'']
     = Inr \<lparr> o_dir = ''.'', o_file_size = 25769803776, o_machine = '''', o_do_random = 0 \<rparr>"
  by (simp add: main_args_def parse_args.simps opts0_def wrap_long_def signed_take_bit_int_eq_self)

lemma unknown_flag_after_r_accepted:
  "main_args [''bonnie'', ''-r'', ''-x'', ''-m'', ''box'']
     = Inr \<lparr> o_dir = ''.'', o_file_size = 25769803776, o_machine = ''box'', o_do_random = 1 \<rparr>"
  by (simp add: main_args_def parse_args.simps opts0_def wrap_long_def signed_take_bit_int_eq_self)

lemma unknown_flag_examined:
  assumes "int nxt < int (length argv) - 1" and "take 1 (argv ! nxt) = ''-''"
    and "drop 1 (argv ! nxt) \<notin> {''d'', ''s'', ''m'', ''r''}"
  shows "parse_args argv nxt v = Inl usage"
  using assms by (subst parse_args.simps) simp

lemma not_a_flag_examined:
  assumes "int nxt < int (length argv) - 1" and "take 1 (argv ! nxt) \<noteq> ''-''"
  shows "parse_args argv nxt v = Inl usage"
  using assms by (subst parse_args.simps) simp

lemma small_size_usage:
  "parse_args argv 1 opts0 = Inr v \<Longrightarrow> o_file_size v < 1 \<Longrightarrow> main_args argv = Inl usage"
  by (simp add: main_args_def)

lemma size_zero_usage: "main_args [''bonnie'', ''-s'', ''0''] = Inl usage"
  by (simp add: main_args_def parse_args.simps opts0_def atoll_def is_space_def is_digit_def
      digit_val_def LLONG_MAX_def LLONG_MIN_def)

subsection \<open>The rewrite loop\<close>

lemma rewrite_loop_done:
  "words \<noteq> Chunk \<Longrightarrow> rewrite_loop e dr k words bi buf pos len tr = (Inr len, tr)"
  by (subst rewrite_loop.simps) simp

lemma rewrite_loop_step:
  assumes "rewrite_loop e dr k Chunk bi buf pos len tr = (Inr len', tr')"
  defines "w \<equiv> file_read (rw_read_fails e (k + 1)) (pos + Chunk) (max len (pos + Chunk))"
  defines "b \<equiv> (if dr \<noteq> 0 then rw_rand e k else snd (dirty bi buf))"
  shows "w \<noteq> - 1 \<and>
    rewrite_loop e dr (k + 1) w (fst (dirty bi buf)) (rw_read_buf e (k + 1))
        (pos + Chunk + w) (max len (pos + Chunk)) (tr @ rewrite_group (pos - Chunk, b, w))
      = (Inr len', tr')"
  using assms(1) unfolding w_def b_def
  by (subst (asm) rewrite_loop.simps)
    (auto simp: Let_def split: if_splits prod.splits)

text \<open>
  A run of the rewrite loop that ends without a failed call consists of one group of calls
  for every read that returned a full block (\<open>Chunk\<close> bytes): one seek back by \<open>Chunk\<close>,
  two \<open>write\<close> calls with the same buffer and the count \<open>Chunk\<close>, then the next read. The
  first write is at the offset of the block read and the second at the offset after it, so
  the next block read is two blocks after the previous one.
\<close>

lemma rewrite_loop_groups:
  assumes "rewrite_loop e dr k words bi buf pos len tr = (Inr len', tr')"
  shows "\<exists>gs. tr' = tr @ concat (map rewrite_group gs)
      \<and> map fst gs = map (\<lambda>i. pos - Chunk + 2 * int i * Chunk) [0 ..< length gs]
      \<and> (gs = [] \<longleftrightarrow> words \<noteq> Chunk)
      \<and> (\<forall>i < length gs. (snd (snd (gs ! i)) = Chunk) = (i + 1 < length gs))"
  using assms
proof (induction "2 * nat (len - pos) + (if words = Chunk then 1 else 0)"
    arbitrary: k words bi buf pos len tr rule: less_induct)
  case less
  show ?case
  proof (cases "words = Chunk")
    case False
    then have "tr' = tr" using less.prems by (simp add: rewrite_loop_done)
    then have "tr' = tr @ concat (map rewrite_group [])
      \<and> map fst ([] :: (int \<times> 32 word list \<times> int) list)
           = map (\<lambda>i. pos - Chunk + 2 * int i * Chunk) [0 ..< length ([] :: (int \<times> 32 word list \<times> int) list)]
      \<and> (([] :: (int \<times> 32 word list \<times> int) list) = [] \<longleftrightarrow> words \<noteq> Chunk)
      \<and> (\<forall>i < length ([] :: (int \<times> 32 word list \<times> int) list).
            (snd (snd (([] :: (int \<times> 32 word list \<times> int) list) ! i)) = Chunk) = (i + 1 < length ([] :: (int \<times> 32 word list \<times> int) list)))"
      using False by simp
    then show ?thesis by blast
  next
    case True
    define w where "w = file_read (rw_read_fails e (k + 1)) (pos + Chunk) (max len (pos + Chunk))"
    define b where "b = (if dr \<noteq> 0 then rw_rand e k else snd (dirty bi buf))"
    have step: "w \<noteq> - 1" "rewrite_loop e dr (k + 1) w (fst (dirty bi buf)) (rw_read_buf e (k + 1))
        (pos + Chunk + w) (max len (pos + Chunk)) (tr @ rewrite_group (pos - Chunk, b, w))
      = (Inr len', tr')"
      using rewrite_loop_step [of e dr k bi buf pos len tr len' tr'] less.prems True
      unfolding w_def b_def by simp_all
    have w: "w = max 0 (min Chunk (max len (pos + Chunk) - (pos + Chunk)))"
      using step(1) by (simp add: w_def file_read_def split: if_splits)
    have dec: "2 * nat (max len (pos + Chunk) - (pos + Chunk + w)) + (if w = Chunk then 1 else 0)
        < 2 * nat (len - pos) + (if words = Chunk then 1 else 0)"
      using True w by (auto simp: Chunk_def split: if_splits)
    obtain gs where gs: "tr' = (tr @ rewrite_group (pos - Chunk, b, w)) @ concat (map rewrite_group gs)"
      "map fst gs = map (\<lambda>i. (pos + Chunk + w) - Chunk + 2 * int i * Chunk) [0 ..< length gs]"
      "gs = [] \<longleftrightarrow> w \<noteq> Chunk"
      "\<forall>i < length gs. (snd (snd (gs ! i)) = Chunk) = (i + 1 < length gs)"
      using less.hyps [OF dec step(2)] by blast
    let ?gs = "(pos - Chunk, b, w) # gs"
    have a: "tr' = tr @ concat (map rewrite_group ?gs)" using gs(1) by simp
    have pos_eq: "(pos + Chunk + w) - Chunk + 2 * int i * Chunk = pos - Chunk + 2 * int (Suc i) * Chunk"
      if "gs \<noteq> []" for i
      using that gs(3) by (simp add: algebra_simps)
    have b': "map fst ?gs = map (\<lambda>i. pos - Chunk + 2 * int i * Chunk) [0 ..< length ?gs]"
    proof (cases "gs = []")
      case True
      then show ?thesis by simp
    next
      case False
      have "[0 ..< length ?gs] = 0 # map Suc [0 ..< length gs]"
        by (simp add: upt_conv_Cons map_Suc_upt del: upt_Suc)
      then show ?thesis using gs(2) pos_eq [OF False] by (simp del: upt_Suc)
    qed
    have d: "(snd (snd (?gs ! i)) = Chunk) = (i + 1 < length ?gs)" if "i < length ?gs" for i
    proof (cases i)
      case 0
      then show ?thesis using gs(3) by auto
    next
      case (Suc j)
      then show ?thesis using gs(4) that by simp
    qed
    have "tr' = tr @ concat (map rewrite_group ?gs)
      \<and> map fst ?gs = map (\<lambda>i. pos - Chunk + 2 * int i * Chunk) [0 ..< length ?gs]
      \<and> (?gs = [] \<longleftrightarrow> words \<noteq> Chunk)
      \<and> (\<forall>i < length ?gs. (snd (snd (?gs ! i)) = Chunk) = (i + 1 < length ?gs))"
      using a b' d True by blast
    then show ?thesis by blast
  qed
qed

lemma quiet_rw_run:
  "rewrite_loop quiet_rw 0 0 Chunk 0 (replicate 2048 7) Chunk (4 * Chunk) []
     = (Inr 32768, rewrite_group (0, (replicate 2048 7) [0 := 8], 8192)
          @ rewrite_group (16384, (replicate 2048 7) [1 := 8], 0))"
  by (simp add: rewrite_loop.simps quiet_rw_def dirty_def file_read_def Chunk_def IntSize_def
      signed_divide_int_def)

text \<open>
  Claim C9 fails on the code. On a file of four blocks the loop seeks back to the offsets
  0 and 16384 (the blocks it has read) and writes at 0, 8192, 16384 and 24576: the second
  write of an iteration is not at the offset of the block read but on the block after it,
  which is never read. (The comment at the head of the source, lines 37--40, says that each
  block is read, dirtied and rewritten.)
\<close>

theorem second_write_on_next_block:
  "write_offsets (snd (rewrite_loop quiet_rw 0 0 Chunk 0 (replicate 2048 7) Chunk (4 * Chunk) []))
     = [0, 8192, 16384, 24576]
   \<and> seek_back_offsets (snd (rewrite_loop quiet_rw 0 0 Chunk 0 (replicate 2048 7) Chunk (4 * Chunk) []))
     = [0, 16384]
   \<and> \<not> redundant_writes
         (snd (rewrite_loop quiet_rw 0 0 Chunk 0 (replicate 2048 7) Chunk (4 * Chunk) []))"
  unfolding quiet_rw_run redundant_writes_def by (simp add: Chunk_def)

subsection \<open>Failed calls end the process\<close>

lemma clean_append: "clean a \<Longrightarrow> clean b \<Longrightarrow> clean (a @ b)"
proof (induction a)
  case Nil
  then show ?case by simp
next
  case (Cons e es)
  then show ?case by (cases es) (auto split: if_splits)
qed

lemma clean_snoc: "clean tr \<Longrightarrow> \<not> failed ev \<Longrightarrow> clean (tr @ [ev])"
  by (rule clean_append) simp_all

lemma run_ok_clean: "clean tr \<Longrightarrow> run_ok (r, tr)"
  by (simp add: run_ok_def)

lemma run_ok_fatal:
  "clean tr \<Longrightarrow> failed ev \<Longrightarrow> \<not> lenient ev \<Longrightarrow> run_ok (Inl (io_error (site ev)), tr @ [ev])"
  by (simp add: run_ok_def)

lemma run_ok_Inr: "run_ok (Inr x, tr) \<Longrightarrow> clean tr"
  by (simp add: run_ok_def)

lemma run_ok_prepend:
  assumes "clean tr" and "run_ok (r, tr')"
  shows "run_ok (r, tr @ tr')"
proof (cases "clean tr'")
  case True
  then show ?thesis using assms(1) by (simp add: run_ok_def clean_append)
next
  case False
  then have f: "tr' \<noteq> []" "clean (butlast tr')" "failed (last tr')" "\<not> lenient (last tr')"
    "r = Inl (io_error (site (last tr')))"
    using assms(2) by (simp_all add: run_ok_def)
  have "clean (butlast (tr @ tr'))" using f(1,2) assms(1) by (simp add: butlast_append clean_append)
  then show ?thesis using f by (simp add: run_ok_def)
qed

lemma run_ok_andthen:
  assumes "run_ok m" and "\<And>x. run_ok (f x)"
  shows "run_ok (andthen m f)"
proof (cases m)
  case (Pair r tr)
  show ?thesis
  proof (cases r)
    case (Inl h)
    then show ?thesis using assms(1) Pair by (simp add: run_ok_def)
  next
    case (Inr x)
    obtain r' tr' where f: "f x = (r', tr')" by (cases "f x")
    have "clean tr" using assms(1) Pair Inr by (simp add: run_ok_Inr)
    moreover have "run_ok (r', tr')" using assms(2) [of x] f by simp
    ultimately have "run_ok (r', tr @ tr')" by (rule run_ok_prepend)
    then show ?thesis using Pair Inr f by simp
  qed
qed

lemma run_ok_check:
  assumes "failed ev \<longrightarrow> cond \<and> \<not> lenient ev \<and> message = site ev"
  shows "run_ok (check ev cond message)"
proof (cases "failed ev")
  case True
  then show ?thesis using assms run_ok_fatal [of "[]" ev] by (simp add: check_def)
next
  case False
  then show ?thesis by (simp add: check_def run_ok_def)
qed

lemma run_ok_warn:
  assumes "failed ev \<longrightarrow> cond \<and> lenient ev \<and> message = site ev"
  shows "run_ok (warn ev cond message)"
  using assms by (cases "failed ev") (auto simp: warn_def run_ok_def)

lemma run_ok_time: "run_ok (time_so_far c)"
  by (cases c) (simp_all add: time_so_far_def run_ok_def)

lemma run_ok_return: "run_ok (r, [])"
  by (simp add: run_ok_def)

lemma run_ok_newfile: "run_ok (newfile name fd create u op fo)"
  unfolding newfile_def
  by (intro run_ok_andthen) (simp_all add: run_ok_check run_ok_return)

lemma probe_not_minus1: "probe_of w \<noteq> - 1"
proof
  assume "probe_of w = - 1"
  then have "(8192::int) dvd - 1" unfolding probe_of_def Chunk_def by (metis dvd_triv_right)
  then show False by simp
qed

lemma run_ok_doseek: "run_ok (doseek e w u d)"
  using probe_not_minus1 [of w]
  by (auto simp: doseek_def Let_def run_ok_def)

lemma run_ok_Inl:
  "run_ok ((Inl h, tr) :: (halt + 'a) \<times> event list) \<Longrightarrow> run_ok ((Inl h, tr) :: (halt + 'b) \<times> event list)"
  by (simp add: run_ok_def)

lemma run_ok_read_ticket: "run_ok (read_ticket ts)"
  by (cases ts) (simp_all add: read_ticket_def run_ok_def)

lemma run_ok_seek_step: "run_ok (seek_step e fs dw k)"
  by (cases "seek_offset (r_offset e) fs") (simp_all add: seek_step_def run_ok_doseek run_ok_return)

lemma run_ok_seek_loop: "clean tr \<Longrightarrow> run_ok (seek_loop pe fs dw t ts c tr)"
proof (induction pe fs dw t ts c tr rule: seek_loop.induct)
  case (1 pe fs dw t ts c tr)
  show ?case
  proof (cases "t = 0")
    case True
    then show ?thesis using "1.prems" by (simp add: run_ok_clean)
  next
    case False
    obtain res evs where d: "seek_step (pe c) fs dw c = (res, evs)"
      by (cases "seek_step (pe c) fs dw c")
    have ok: "run_ok (res, evs)" using run_ok_seek_step [of "pe c" fs dw c] d by simp
    show ?thesis
    proof (cases res)
      case (Inl h)
      have "run_ok ((Inl h, evs) :: (halt + nat) \<times> event list)"
        using ok Inl by (simp add: run_ok_def)
      then have "run_ok ((Inl h, tr @ evs) :: (halt + nat) \<times> event list)"
        using "1.prems" by (rule run_ok_prepend [rotated])
      then show ?thesis using False d Inl by simp
    next
      case (Inr u)
      then have ce: "clean evs" using ok by (simp add: run_ok_Inr)
      show ?thesis
      proof (cases ts)
        case Nil
        have "clean (tr @ evs @ [Sys_read_ticket None])"
          using "1.prems" ce by (intro clean_append) simp_all
        then show ?thesis using False d Inr Nil by (simp add: run_ok_clean)
      next
        case (Cons t' ts')
        have c: "clean (tr @ evs @ [Sys_read_ticket (Some t')])"
          using "1.prems" ce by (intro clean_append) simp_all
        from "1.IH" [OF False d [symmetric] Inr Cons c]
        show ?thesis using False d Inr Cons by simp
      qed
    qed
  qed
qed

lemma run_ok_seek_child: "run_ok (seek_child e filename fsize do_write)"
  unfolding seek_child_def
  by (intro run_ok_andthen run_ok_newfile run_ok_read_ticket; clarsimp simp del: seek_loop.simps)
    (intro run_ok_andthen run_ok_time run_ok_seek_loop run_ok_warn run_ok_check run_ok_return;
      simp del: seek_loop.simps)+


lemma update_flag_0: "update_flag 0 = 1"
  by (simp add: update_flag_def)

lemma seek_step_quiet_ro:
  "seek_step quiet_probe 1073741824 0 0 = (Inr (), [Call_doseek 0 1 0,
     Sys_lseek ''lseek in doseek'' 0 0, Sys_read ''read in doseek'' 8192 8192])"
  by (simp add: seek_step_def seek_offset_0 update_flag_0 doseek_def quiet_probe_def probe_of_def
      Chunk_def)

lemma quiet_child_fsync_run:
  "seek_child (quiet_worker \<lparr> fsync_after_res := - 1 \<rparr>) ''./bonnie.1'' 1073741824 0
     = (Inl (Exit 0 []),
        [Sys_open 3, Sys_fdopen True, Sys_read_ticket (Some 1),
         Sys_gettimeofday True, Sys_gettimeofday True,
         Call_doseek 0 1 0, Sys_lseek ''lseek in doseek'' 0 0, Sys_read ''read in doseek'' 8192 8192,
         Sys_read_ticket (Some 0),
         Sys_fsync ''fsync after seek'' (- 1), Perror ''fsync after seek'',
         Sys_close ''close after seek'' 0,
         Sys_gettimeofday True, Sys_gettimeofday True,
         Sys_write_report [1, 1, 3] 24])"
  by (simp add: seek_child_def quiet_worker_def newfile_def check_def warn_def read_ticket_def
      time_so_far_def seek_step_quiet_ro)

text \<open>
  Claim C6 as stated fails: a worker whose \<open>fsync\<close> after the stop ticket returns -1
  prints \<open>fsync after seek\<close>, closes the file, sends its report and ends with
  \<open>exit(0)\<close>.
\<close>

theorem fsync_after_stop_not_fatal:
  "fst (seek_child (quiet_worker \<lparr> fsync_after_res := - 1 \<rparr>) ''./bonnie.1'' 1073741824 0)
     = Inl (Exit 0 [])
   \<and> Sys_fsync ''fsync after seek'' (- 1)
       \<in> set (snd (seek_child (quiet_worker \<lparr> fsync_after_res := - 1 \<rparr>) ''./bonnie.1'' 1073741824 0))
   \<and> \<not> strict_ok (seek_child (quiet_worker \<lparr> fsync_after_res := - 1 \<rparr>) ''./bonnie.1'' 1073741824 0)"
  by (simp add: quiet_child_fsync_run strict_ok_def)

lemma quiet_child_close_run:
  "seek_child (quiet_worker \<lparr> close_after_res := - 1 \<rparr>) ''./bonnie.1'' 1073741824 0
     = (Inl (io_error ''close after seek''),
        [Sys_open 3, Sys_fdopen True, Sys_read_ticket (Some 1),
         Sys_gettimeofday True, Sys_gettimeofday True,
         Call_doseek 0 1 0, Sys_lseek ''lseek in doseek'' 0 0, Sys_read ''read in doseek'' 8192 8192,
         Sys_read_ticket (Some 0),
         Sys_fsync ''fsync after seek'' 0,
         Sys_close ''close after seek'' (- 1)])"
  by (simp add: seek_child_def quiet_worker_def newfile_def check_def warn_def read_ticket_def
      time_so_far_def seek_step_quiet_ro)

lemma run_ok_write_loop:
  "clean tr \<Longrightarrow> run_ok (write_loop e dr n steps k words bi buf pos tr)"
proof (induction steps arbitrary: k words bi buf pos tr)
  case 0
  then show ?case by (simp add: run_ok_clean)
next
  case (Suc steps)
  obtain bi1 buf1 where d: "dirty bi buf = (bi1, buf1)" by (cases "dirty bi buf")
  let ?buf2 = "if dr \<noteq> 0 then fw_rand e k else buf1"
  let ?ev = "Sys_write ''write(2)'' pos ?buf2 Chunk (fw_write_res e k)"
  show ?case
  proof (cases "sint words < n")
    case False
    then show ?thesis using Suc.prems by (simp add: run_ok_clean)
  next
    case lt: True
    show ?thesis
    proof (cases "fw_write_res e k = - 1")
      case True
      have "run_ok ((Inl (io_error (site ?ev)), tr @ [?ev]) :: (halt + int) \<times> event list)"
        by (rule run_ok_fatal [OF Suc.prems]) (use True in simp_all)
      then show ?thesis using lt d True by (simp add: Let_def)
    next
      case False
      have c: "clean (tr @ [?ev])" by (rule clean_snoc [OF Suc.prems]) (use False in simp)
      from Suc.IH [OF c]
      show ?thesis using lt d False by (simp add: Let_def)
    qed
  qed
qed

lemma file_read_failed:
  "failed (Sys_read s Chunk (file_read fails pos len)) = fails"
  by (auto simp: file_read_def max_def)

lemma file_read_minus1: "file_read fails pos len = - 1 \<longleftrightarrow> fails"
  by (auto simp: file_read_def max_def)

lemma file_read_True [simp]: "file_read True pos len = - 1"
  by (simp add: file_read_def)

lemma file_read_False [simp]: "file_read False pos len \<noteq> - 1"
  by (auto simp: file_read_def max_def)

lemma run_ok_read_loop: "clean tr \<Longrightarrow> run_ok (read_loop e k pos len tr)"
proof (induction "nat (len - pos)" arbitrary: k pos tr rule: less_induct)
  case less
  let ?w = "file_read (rd_read_fails e k) pos len"
  let ?ev = "Sys_read ''read(2)'' Chunk ?w"
  show ?case
  proof (cases "rd_read_fails e k")
    case True
    have "run_ok ((Inl (io_error (site ?ev)), tr @ [?ev]) :: (halt + unit) \<times> event list)"
      by (rule run_ok_fatal [OF less.prems]) (use True in \<open>simp_all add: file_read_failed file_read_minus1\<close>)
    then show ?thesis using True
      by (subst read_loop.simps) (simp add: Let_def file_read_minus1)
  next
    case False
    have c: "clean (tr @ [?ev])"
      by (rule clean_snoc [OF less.prems]) (use False in \<open>simp add: file_read_failed\<close>)
    show ?thesis
    proof (cases "?w = 0")
      case True
      then show ?thesis using False c
        by (subst read_loop.simps) (simp add: Let_def file_read_minus1 run_ok_clean)
    next
      case nz: False
      have dec: "nat (len - (pos + ?w)) < nat (len - pos)"
        using nz False by (auto simp: file_read_def Chunk_def split: if_splits)
      from less.hyps [OF dec c]
      show ?thesis using False nz
        by (subst read_loop.simps) (simp add: Let_def file_read_minus1)
    qed
  qed
qed

lemma run_ok_rewrite_loop:
  "clean tr \<Longrightarrow> (words = Chunk \<longrightarrow> Chunk \<le> pos) \<Longrightarrow>
     run_ok (rewrite_loop e dr k words bi buf pos len tr)"
proof (induction "2 * nat (len - pos) + (if words = Chunk then 1 else 0)"
    arbitrary: k words bi buf pos len tr rule: less_induct)
  case less
  show ?case
  proof (cases "words = Chunk")
    case False
    then show ?thesis using less.prems by (simp add: rewrite_loop_done run_ok_clean)
  next
    case True
    then have pos: "Chunk \<le> pos" using less.prems(2) by simp
    obtain bi1 buf1 where d: "dirty bi buf = (bi1, buf1)" by (cases "dirty bi buf")
    let ?buf2 = "if dr \<noteq> 0 then rw_rand e k else buf1"
    let ?e1 = "Sys_lseek ''relative lseek(2)'' (- Chunk) (if rw_lseek_fails e k then - 1 else pos - Chunk)"
    let ?e2 = "Sys_write ''re write(2)'' (pos - Chunk) ?buf2 Chunk (if rw_write1_fails e k then - 1 else Chunk)"
    let ?e3 = "Sys_write ''re write(2)'' pos ?buf2 Chunk (if rw_write2_fails e k then - 1 else Chunk)"
    let ?w = "file_read (rw_read_fails e (k + 1)) (pos + Chunk) (max len (pos + Chunk))"
    let ?e4 = "Sys_read ''rwrite read'' Chunk ?w"
    have chunk: "Chunk \<noteq> - 1" by (simp add: Chunk_def)
    show ?thesis
    proof (cases "rw_lseek_fails e k")
      case True
      have "run_ok ((Inl (io_error (site ?e1)), tr @ [?e1]) :: (halt + int) \<times> event list)"
        by (rule run_ok_fatal [OF less.prems(1)]) (use True in simp_all)
      then show ?thesis using \<open>words = Chunk\<close> d True
        by (subst rewrite_loop.simps) (auto simp add: Let_def)
    next
      case l: False
      have c1: "clean (tr @ [?e1])"
        by (rule clean_snoc [OF less.prems(1)]) (use l pos in \<open>simp add: Chunk_def\<close>)
      show ?thesis
      proof (cases "rw_write1_fails e k")
        case True
        have "run_ok ((Inl (io_error (site ?e2)), (tr @ [?e1]) @ [?e2]) :: (halt + int) \<times> event list)"
          by (rule run_ok_fatal [OF c1]) (use True in simp_all)
        then show ?thesis using \<open>words = Chunk\<close> d l True
          by (subst rewrite_loop.simps) (auto simp add: Let_def)
      next
        case w1: False
        have c2: "clean ((tr @ [?e1]) @ [?e2])"
          by (rule clean_snoc [OF c1]) (use w1 chunk in simp)
        show ?thesis
        proof (cases "rw_write2_fails e k")
          case True
          have "run_ok ((Inl (io_error (site ?e3)), ((tr @ [?e1]) @ [?e2]) @ [?e3]) :: (halt + int) \<times> event list)"
            by (rule run_ok_fatal [OF c2]) (use True in simp_all)
          then show ?thesis using \<open>words = Chunk\<close> d l w1 True
            by (subst rewrite_loop.simps) (auto simp add: Let_def)
        next
          case w2: False
          have c3: "clean (((tr @ [?e1]) @ [?e2]) @ [?e3])"
            by (rule clean_snoc [OF c2]) (use w2 chunk in simp)
          show ?thesis
          proof (cases "rw_read_fails e (k + 1)")
            case True
            have "run_ok ((Inl (io_error (site ?e4)), (((tr @ [?e1]) @ [?e2]) @ [?e3]) @ [?e4])
                :: (halt + int) \<times> event list)"
              by (rule run_ok_fatal [OF c3]) (use True in \<open>simp_all add: file_read_failed file_read_minus1\<close>)
            then show ?thesis using \<open>words = Chunk\<close> d l w1 w2 True
              by (subst rewrite_loop.simps) (auto simp add: Let_def file_read_minus1 add.commute)
          next
            case r: False
            have c4: "clean ((((tr @ [?e1]) @ [?e2]) @ [?e3]) @ [?e4])"
              by (rule clean_snoc [OF c3]) (use r in \<open>simp add: file_read_failed\<close>)
            have w: "?w = max 0 (min Chunk (max len (pos + Chunk) - (pos + Chunk)))"
              using r by (simp add: file_read_def)
            have dec: "2 * nat (max len (pos + Chunk) - (pos + Chunk + ?w)) + (if ?w = Chunk then 1 else 0)
                < 2 * nat (len - pos) + (if words = Chunk then 1 else 0)"
              using True w by (auto simp: Chunk_def split: if_splits)
            have p: "?w = Chunk \<longrightarrow> Chunk \<le> pos + Chunk + ?w"
              using pos by (simp add: Chunk_def)
            from less.hyps [OF dec c4 p]
            show ?thesis using \<open>words = Chunk\<close> d l w1 w2 r
              by (subst rewrite_loop.simps) (auto simp add: Let_def file_read_minus1 add.commute)
          qed
        qed
      qed
    qed
  qed
qed

lemma run_ok_fork_loop: "clean tr \<Longrightarrow> run_ok (fork_loop env fn fs dw nxt chn tr)"
proof (induction "SeekProcCount - nxt" arbitrary: nxt chn tr)
  case 0
  then have "\<not> nxt < SeekProcCount" by simp
  then show ?case using "0.prems" by (simp add: fork_loop_done run_ok_clean)
next
  case (Suc k)
  then have lt: "nxt < SeekProcCount" by simp
  let ?ev = "Sys_fork (fork_res env nxt)"
  have c: "clean (tr @ [?ev])" by (rule clean_snoc [OF Suc.prems]) simp
  consider (fail) "fork_res env nxt = - 1" | (child) "fork_res env nxt = 0"
    | (parent) "fork_res env nxt \<noteq> - 1" "fork_res env nxt \<noteq> 0" by blast
  then show ?case
  proof cases
    case fail
    then show ?thesis using lt c by (subst fork_loop.simps) (simp add: Let_def run_ok_clean)
  next
    case child
    obtain r evs where s: "seek_child (child_env env nxt) fn fs dw = (r, evs)"
      by (cases "seek_child (child_env env nxt) fn fs dw")
    have ok: "run_ok (r, evs)" using run_ok_seek_child [of "child_env env nxt" fn fs dw] s by simp
    have "run_ok ((Inl (case r of Inl h \<Rightarrow> h | Inr u \<Rightarrow> Exit 0 []), evs) :: (halt + int list) \<times> event list)"
      using ok by (cases r) (simp_all add: run_ok_def)
    then have "run_ok ((Inl (case r of Inl h \<Rightarrow> h | Inr u \<Rightarrow> Exit 0 []), (tr @ [?ev]) @ evs)
        :: (halt + int list) \<times> event list)"
      by (rule run_ok_prepend [OF c])
    then show ?thesis using lt child s by (subst fork_loop.simps) (simp add: Let_def)
  next
    case parent
    have k: "k = SeekProcCount - (nxt + 1)" using Suc.hyps(2) by simp
    from Suc.hyps(1) [OF k c]
    show ?thesis using lt parent by (subst fork_loop.simps) (simp add: Let_def)
  qed
qed

lemma run_ok_collect_loop: "clean tr \<Longrightarrow> run_ok (collect_loop env w nxt st tr)"
proof (induction "SeekProcCount - nxt" arbitrary: nxt st tr)
  case 0
  then have "\<not> nxt < SeekProcCount" by simp
  then show ?case using "0.prems" by (simp add: collect_loop_done run_ok_clean)
next
  case (Suc k)
  then have lt: "nxt < SeekProcCount" by simp
  let ?e1 = "Sys_read_report (report_read_res env nxt)"
  have c1: "clean (tr @ [?e1])" by (rule clean_snoc [OF Suc.prems]) simp
  have c2: "clean ((tr @ [?e1]) @ [Sys_wait p])" for p by (rule clean_snoc [OF c1]) simp
  have k: "k = SeekProcCount - (nxt + 1)" using Suc.hyps(2) by simp
  note IH = Suc.hyps(1) [OF k c2]
  show ?case using lt c1 c2 IH
    by (subst collect_loop.simps) (auto simp: Let_def run_ok_clean split: option.splits)
qed

lemma run_ok_do_seekstuff: "run_ok (do_seekstuff env fn fs a dw w st)"
proof -
  let ?tr0 = "[Sys_system ''dropthedamncaches'', Sys_pipe (pipe_feedback_res env)]"
  let ?tr1 = "?tr0 @ [Sys_pipe (pipe_control_res env)]"
  have c0: "clean ?tr0" and c1: "clean ?tr1" by simp_all
  obtain r2 tr2 where f: "fork_loop env fn fs dw 0 (children st) ?tr1 = (r2, tr2)"
    by (cases "fork_loop env fn fs dw 0 (children st) ?tr1")
  have ok2: "run_ok (r2, tr2)" using run_ok_fork_loop [OF c1, of env fn fs dw 0 "children st"] f by simp
  show ?thesis
  proof (cases r2)
    case (Inl h)
    then have "run_ok ((Inl h, tr2) :: (halt + seek_state) \<times> event list)"
      using ok2 by (simp add: run_ok_def)
    then show ?thesis using f Inl c0 c1
      by (auto simp: do_seekstuff_def Let_def run_ok_clean)
  next
    case (Inr chn)
    then have c2: "clean tr2" using ok2 by (simp add: run_ok_Inr)
    let ?ev = "Sys_write_tickets (ticket_bytes a) (write_tickets_res env)"
    have c3: "clean (tr2 @ [?ev])" by (rule clean_snoc [OF c2]) simp
    let ?st = "st \<lparr> first_start := 0, last_stop := 0, children := chn \<rparr>"
    obtain r4 tr4 where c: "collect_loop env w 0 ?st (tr2 @ [?ev]) = (r4, tr4)"
      by (cases "collect_loop env w 0 ?st (tr2 @ [?ev])")
    have ok4: "run_ok (r4, tr4)" using run_ok_collect_loop [OF c3, of env w 0 ?st] c by simp
    have "run_ok ((case r4 of Inl h \<Rightarrow> Inl h | Inr st' \<Rightarrow> Inr (g st'), tr4)
        :: (halt + seek_state) \<times> event list)" for g
      using ok4 by (cases r4) (simp_all add: run_ok_def)
    then show ?thesis using f Inr c c0 c1 c3
      by (auto simp: do_seekstuff_def Let_def run_ok_clean split: sum.splits)
  qed
qed

lemma run_ok_fast_write: "run_ok (fast_write e fn fs dr dl)"
  unfolding fast_write_def
  by (intro run_ok_andthen run_ok_newfile run_ok_time run_ok_write_loop run_ok_warn
      run_ok_check run_ok_return; simp)

lemma run_ok_rewrite: "run_ok (rewrite e fn fd dr len dl)"
proof -
  have pos: "file_read (rw_read_fails e 0) 0 len = Chunk \<longrightarrow> Chunk \<le> file_read (rw_read_fails e 0) 0 len"
    by simp
  show ?thesis
    unfolding rewrite_def
    by (intro run_ok_andthen run_ok_newfile run_ok_time run_ok_rewrite_loop run_ok_warn
        run_ok_check run_ok_return pos; simp add: file_read_failed file_read_minus1)
qed

lemma run_ok_fast_read: "run_ok (fast_read e fn fd len dl)"
  unfolding fast_read_def
  by (intro run_ok_andthen run_ok_newfile run_ok_time run_ok_read_loop run_ok_warn
      run_ok_check run_ok_return run_ok_clean; simp)

lemma run_ok_sequential_phases: "run_ok (sequential_phases e fn v)"
  unfolding sequential_phases_def
  by (intro run_ok_andthen run_ok_fast_write; clarsimp)
    (intro run_ok_andthen run_ok_rewrite; clarsimp simp: run_ok_fast_read)

lemma run_ok_seek_phases: "run_ok (seek_phases e fn v dl)"
  unfolding seek_phases_def
  by (intro run_ok_andthen run_ok_do_seekstuff)

lemma run_ok_main_setup: "run_ok (main_setup e)"
  by (simp add: main_setup_def run_ok_def)

lemma run_ok_main_run: "run_ok (main_run e argv)"
  unfolding main_run_def
  by (intro run_ok_andthen run_ok_main_setup run_ok_sequential_phases run_ok_seek_phases
      run_ok_return)
    (simp add: run_ok_def split: sum.splits)

lemma clean_failed:
  "clean tr \<Longrightarrow> i < length tr \<Longrightarrow> failed (tr ! i) \<Longrightarrow>
     lenient (tr ! i) \<and> i + 1 < length tr \<and> tr ! (i + 1) = Perror (site (tr ! i))"
proof (induction tr arbitrary: i)
  case Nil
  then show ?case by simp
next
  case (Cons e es)
  show ?case
  proof (cases i)
    case 0
    then have f: "failed e" using Cons.prems(3) by simp
    then have "lenient e" "take 1 es = [Perror (site e)]" using Cons.prems(1) by simp_all
    then show ?thesis using 0 by (cases es) simp_all
  next
    case (Suc j)
    have "clean es" using Cons.prems(1) by (simp split: if_splits)
    from Cons.IH [OF this, of j] Cons.prems(2,3) Suc
    show ?thesis by simp
  qed
qed

lemma run_ok_failed:
  assumes "run_ok (r, tr)" and "i < length tr" and "failed (tr ! i)"
  shows "if lenient (tr ! i)
         then i + 1 < length tr \<and> tr ! (i + 1) = Perror (site (tr ! i))
         else i + 1 = length tr \<and> r = Inl (io_error (site (tr ! i)))"
proof (cases "clean tr")
  case True
  then show ?thesis using clean_failed [OF True assms(2,3)] by simp
next
  case False
  then have f: "tr \<noteq> []" "clean (butlast tr)" "failed (last tr)" "\<not> lenient (last tr)"
    "r = Inl (io_error (site (last tr)))"
    using assms(1) by (simp_all add: run_ok_def)
  show ?thesis
  proof (cases "i + 1 = length tr")
    case True
    then have "i = length tr - 1" by simp
    then have "tr ! i = last tr" using f(1) by (simp add: last_conv_nth)
    then show ?thesis using f True by simp
  next
    case False
    then have i: "i < length (butlast tr)" using assms(2) by simp
    then have nth: "butlast tr ! i = tr ! i" by (simp add: nth_butlast)
    have l: "lenient (tr ! i)" and j: "i + 1 < length (butlast tr)"
      and p: "butlast tr ! (i + 1) = Perror (site (tr ! i))"
      using clean_failed [OF f(2) i] assms(3) nth by simp_all
    have "butlast tr ! (i + 1) = tr ! (i + 1)" using j by (rule nth_butlast)
    then show ?thesis using l j p by simp
  qed
qed

end
